theory Spec2Isabelle
  imports Main "HOL-Library.Word" "HOL-Library.Sublist"
begin

text \<open>
  The two stateful components of the storyteller: the page \<open>Home\<close>, which cuts the
  narrated text into scenes, and the recorder \<open>StoryRecorder\<close>, which accumulates the
  recognised text. A component is a record of its React state cells and refs, a handler
  is a function on that record, and what the run time keeps for the component (the
  pending timers, the requests in flight, the effects to run after a render) is written
  out as further fields and as events.
\<close>

section \<open>JavaScript strings\<close>

text \<open>
  A JavaScript string is a sequence of UTF-16 code units; \<open>length\<close>, \<open>slice\<close>,
  \<open>trim\<close>, \<open>endsWith\<close> and the regular expression \<open>\s\<close> all work on code units.
\<close>

type_synonym code_unit = "16 word"
type_synonym jsstring = "code_unit list"

text \<open>
  The code units that \<open>String.prototype.trim\<close> strips and that \<open>\s\<close> matches:
  the ECMAScript WhiteSpace and LineTerminator productions (TAB, LF, VT, FF, CR, SP, NBSP,
  U+1680, U+2000..U+200A, U+2028, U+2029, U+202F, U+205F, U+3000, U+FEFF).
\<close>

definition is_space :: "code_unit \<Rightarrow> bool" where
  "is_space c \<longleftrightarrow>
     c = 0x0009 \<or> c = 0x000A \<or> c = 0x000B \<or> c = 0x000C \<or> c = 0x000D \<or> c = 0x0020 \<or>
     c = 0x00A0 \<or> c = 0x1680 \<or> (0x2000 \<le> c \<and> c \<le> 0x200A) \<or> c = 0x2028 \<or>
     c = 0x2029 \<or> c = 0x202F \<or> c = 0x205F \<or> c = 0x3000 \<or> c = 0xFEFF"

text \<open>\<open>s.trim()\<close>\<close>

definition trim :: "jsstring \<Rightarrow> jsstring" where
  "trim s = rev (dropWhile is_space (rev (dropWhile is_space s)))"

text \<open>\<open>s.slice(n)\<close> for an integer \<open>n \<ge> 0\<close>; beyond the end it is the empty string.\<close>

definition slice :: "jsstring \<Rightarrow> nat \<Rightarrow> jsstring" where
  "slice s n = drop n s"

text \<open>\<open>s.endsWith(' ')\<close>\<close>

definition endsWith_space :: "jsstring \<Rightarrow> bool" where
  "endsWith_space s \<longleftrightarrow> s \<noteq> [] \<and> last s = 0x0020"

text \<open>
  \<open>s.split(/\s+/)\<close>: the pieces between the maximal runs of white space. A run at the
  start or at the end leaves an empty piece there, and the empty string splits into one
  empty piece.
\<close>

function split_ws :: "jsstring \<Rightarrow> jsstring list" where
  "split_ws s =
     (case dropWhile (\<lambda>c. \<not> is_space c) s of
        [] \<Rightarrow> [takeWhile (\<lambda>c. \<not> is_space c) s]
      | c # rest \<Rightarrow> takeWhile (\<lambda>c. \<not> is_space c) s # split_ws (dropWhile is_space rest))"
  by pat_completeness auto
termination
proof (relation "measure length")
  show "wf (measure length)" by simp
next
  fix s :: jsstring and c rest
  assume d: "dropWhile (\<lambda>c. \<not> is_space c) s = c # rest"
  have "length (dropWhile is_space rest) \<le> length rest"
    by (rule length_dropWhile_le)
  moreover have "length (c # rest) \<le> length s"
    using length_dropWhile_le [of "\<lambda>c. \<not> is_space c" s] d by simp
  ultimately show "(dropWhile is_space rest, s) \<in> measure length"
    by simp
qed

declare split_ws.simps [simp del]

text \<open>\<open>newText.trim().split(/\s+/).filter(w => w.length > 0).length\<close>\<close>

definition wordCount :: "jsstring \<Rightarrow> nat" where
  "wordCount newText = length (filter (\<lambda>w. length w > 0) (split_ws (trim newText)))"

text \<open>ASCII text as a JavaScript string, for writing concrete inputs.\<close>

definition ascii :: "string \<Rightarrow> jsstring" where
  "ascii cs = map (\<lambda>c. of_nat (of_char c)) cs"

section \<open>The page component: scenes, cursor and triggers\<close>

text \<open>
  The state of \<open>Home\<close>: its four \<open>useState\<close> cells and the \<open>processingRef\<close> ref, and
  what the run time holds for it: the pending \<open>setTimeout\<close> of the effect (with the
  values its closure captured), the suspended calls of \<open>handleGenerateScene\<close> (each with
  its \<open>text\<close> and \<open>lengthProcessed\<close>), and the clock in milliseconds that
  \<open>setTimeout\<close> and \<open>Date.now()\<close> read.
\<close>

record scene =
  scene_image :: jsstring
  scene_narrative :: "jsstring option"
  scene_id :: nat

record timer =
  deadline :: nat
  t_currentTranscript :: jsstring
  t_lastProcessedLength :: nat
  t_newText :: jsstring

record round =
  r_text :: jsstring
  r_lengthProcessed :: nat

record home =
  scenes :: "scene list"
  currentTranscript :: jsstring
  isProcessing :: bool
  lastProcessedLength :: nat
  processingRef :: bool
  pause_timer :: "timer option"
  inflight :: "round list"
  clock :: nat

text \<open>
  What the awaited request can do: \<open>fetch\<close> rejects, the response is not \<open>ok\<close>,
  \<open>response.json()\<close> rejects, or it yields the handler's \<open>Data\<close> object, whose
  \<open>image\<close> and \<open>narrative\<close> are optional.
\<close>

record data =
  success :: bool
  d_image :: "jsstring option"
  d_narrative :: "jsstring option"

datatype response = FetchRejected | NotOk | JsonRejected | Json data

text \<open>\<open>currentTranscript.slice(lastProcessedLength)\<close>, the text not yet turned into scenes.\<close>

definition pending :: "home \<Rightarrow> jsstring" where
  "pending h = slice (currentTranscript h) (lastProcessedLength h)"

text \<open>
  \<open>handleGenerateScene\<close> up to its first \<open>await\<close>: the guard, the flag, and the request
  sent with \<open>lengthProcessed\<close> captured.
\<close>

definition handleGenerateScene :: "jsstring \<Rightarrow> home \<Rightarrow> home" where
  "handleGenerateScene text h =
     (if trim text = [] \<or> processingRef h then h
      else h\<lparr>processingRef := True, isProcessing := True,
             inflight := inflight h @ [\<lparr>r_text = text, r_lengthProcessed = length text\<rparr>]\<rparr>)"

text \<open>\<open>data.success && data.image\<close>\<close>

definition usable :: "data \<Rightarrow> bool" where
  "usable d \<longleftrightarrow> success d \<and> (case d_image d of None \<Rightarrow> False | Some i \<Rightarrow> i \<noteq> [])"

text \<open>
  The rest of \<open>handleGenerateScene\<close>, run when the request settles: the \<open>try\<close> body
  after the \<open>await\<close>, the \<open>catch\<close> that only logs, and the \<open>finally\<close> block.
\<close>

definition resume :: "round \<Rightarrow> response \<Rightarrow> home \<Rightarrow> home" where
  "resume r res h =
     (let h1 = (case res of
                  Json d \<Rightarrow>
                    (case d_image d of
                       Some i \<Rightarrow>
                         if success d \<and> i \<noteq> []
                         then h\<lparr>scenes := scenes h @
                                    [\<lparr>scene_image = i, scene_narrative = d_narrative d,
                                      scene_id = clock h\<rparr>],
                                lastProcessedLength :=
                                  lastProcessedLength h + r_lengthProcessed r\<rparr>
                         else h
                     | None \<Rightarrow> h)
                | _ \<Rightarrow> h)
      in h1\<lparr>processingRef := False, isProcessing := False\<rparr>)"

text \<open>
  One run of the effect on \<open>[currentTranscript, lastProcessedLength]\<close>: the shrink guard,
  the word-count trigger, and otherwise the three-second timer.
\<close>

definition effect_body :: "home \<Rightarrow> home" where
  "effect_body h =
     (if length (currentTranscript h) < lastProcessedLength h
      then h\<lparr>lastProcessedLength := length (currentTranscript h)\<rparr>
      else let newText = slice (currentTranscript h) (lastProcessedLength h);
               wc = wordCount newText
           in if wc \<ge> 25 \<and> \<not> processingRef h then handleGenerateScene newText h
              else h\<lparr>pause_timer := Some \<lparr>deadline = clock h + 3000,
                                           t_currentTranscript = currentTranscript h,
                                           t_lastProcessedLength = lastProcessedLength h,
                                           t_newText = newText\<rparr>\<rparr>)"

text \<open>Before the effect runs again, the cleanup of its last run clears that run's timer.\<close>

definition run_effect :: "home \<Rightarrow> home" where
  "run_effect h = effect_body (h\<lparr>pause_timer := None\<rparr>)"

text \<open>
  After a change of \<open>currentTranscript\<close> or \<open>lastProcessedLength\<close> the effect runs; when
  that run itself moves \<open>lastProcessedLength\<close> (the shrink guard), it runs once more.
\<close>

definition effects :: "home \<Rightarrow> home" where
  "effects h =
     (let h1 = run_effect h
      in if lastProcessedLength h1 \<noteq> lastProcessedLength h then run_effect h1 else h1)"

text \<open>The timer's callback, with the values of the render that armed it.\<close>

definition timer_callback :: "timer \<Rightarrow> home \<Rightarrow> home" where
  "timer_callback tm h =
     (if length (t_currentTranscript tm) > t_lastProcessedLength tm + 10 \<and> \<not> processingRef h
      then (if trim (t_newText tm) \<noteq> [] then handleGenerateScene (t_newText tm) h else h)
      else h)"

text \<open>The click handler of the "Generate Scene Now" button, which is disabled while
  \<open>isProcessing\<close> or while the transcript is empty.\<close>

definition manual_click :: "home \<Rightarrow> home" where
  "manual_click h =
     (if isProcessing h \<or> length (currentTranscript h) = 0 then h
      else let newText = slice (currentTranscript h) (lastProcessedLength h)
           in if length (trim newText) > 3 then handleGenerateScene newText h else h)"

text \<open>The confirmed click on "Clear History", a button shown only when there are scenes.\<close>

definition clear_history :: "home \<Rightarrow> home" where
  "clear_history h = (if length (scenes h) > 0 then h\<lparr>scenes := []\<rparr> else h)"

text \<open>
  What can happen to the page: the recorder calls \<open>onTranscriptChange\<close>
  (\<open>setCurrentTranscript\<close>, which does nothing for an equal value), time passes (and the
  timer runs as soon as its delay is over, which is the earliest that \<open>setTimeout\<close>
  allows), the button is clicked, the request in flight settles, the history is cleared.
  Each event runs to completion, state updates and effects included, before the next
  one.
\<close>

datatype event =
    TranscriptChange jsstring
  | Elapse nat
  | ManualClick
  | Response response
  | ClearHistory

definition step :: "event \<Rightarrow> home \<Rightarrow> home" where
  "step e h =
     (case e of
        TranscriptChange t \<Rightarrow>
          if t = currentTranscript h then h else effects (h\<lparr>currentTranscript := t\<rparr>)
      | Elapse d \<Rightarrow>
          (case pause_timer h of
             None \<Rightarrow> h\<lparr>clock := clock h + d\<rparr>
           | Some tm \<Rightarrow>
               if deadline tm \<le> clock h + d
               then timer_callback tm (h\<lparr>clock := clock h + d, pause_timer := None\<rparr>)
               else h\<lparr>clock := clock h + d\<rparr>)
      | ManualClick \<Rightarrow> manual_click h
      | Response res \<Rightarrow>
          (case inflight h of
             [] \<Rightarrow> h
           | r # rs \<Rightarrow>
               let h1 = resume r res (h\<lparr>inflight := rs\<rparr>)
               in if lastProcessedLength h1 \<noteq> lastProcessedLength h then effects h1 else h1)
      | ClearHistory \<Rightarrow> clear_history h)"

definition run :: "event list \<Rightarrow> home \<Rightarrow> home" where
  "run evs h = foldl (\<lambda>s e. step e s) h evs"

text \<open>The page after its first render, at time \<open>c\<close>: the effect has run once.\<close>

definition initial :: "nat \<Rightarrow> home" where
  "initial c =
     effects \<lparr>scenes = [], currentTranscript = [], isProcessing = False,
              lastProcessedLength = 0, processingRef = False, pause_timer = None,
              inflight = [], clock = c\<rparr>"

section \<open>The recorder component: base, session and interim text\<close>

text \<open>
  The state of \<open>StoryRecorder\<close>: the \<open>useState\<close> cells and refs that its handlers
  read, the pending timers (the 800 ms restart of \<open>handleManualEdit\<close> kept in
  \<open>restartTimeoutRef\<close>, and the 50 ms restarts that \<open>onend\<close> schedules), the number of
  recognition instances created so far (an instance is known by its number), and the
  texts passed to \<open>onTranscriptChange\<close>, in order. The cell \<open>recognition\<close> and the ref
  \<open>latestTranscriptRef\<close> are written but never read, and are left out. The browser is
  taken to support speech recognition; without it the component renders no control.
\<close>

record recorder =
  isRecording :: bool
  transcript :: jsstring
  interimTranscript :: jsstring
  baseTranscript :: jsstring
  sessionTranscript :: jsstring
  isRecordingRef :: bool
  recognitionRef :: "nat option"
  restartTimeout :: bool
  endRestarts :: nat
  created :: nat
  notified :: "jsstring list"

text \<open>One entry of \<open>event.results\<close>: \<open>isFinal\<close> and the transcript of its first alternative.\<close>

record result =
  isFinal :: bool
  res_transcript :: jsstring

datatype speech_error = NoSpeech | NotAllowed | OtherError

definition stopRecording :: "recorder \<Rightarrow> recorder" where
  "stopRecording r = r\<lparr>isRecording := False, isRecordingRef := False, recognitionRef := None\<rparr>"

text \<open>
  \<open>startRecording\<close>: a new instance is created and started; \<open>started\<close> tells whether
  \<open>instance.start()\<close> returned or threw (the \<open>catch\<close> only logs).
\<close>

definition startRecording :: "bool \<Rightarrow> recorder \<Rightarrow> recorder" where
  "startRecording started r =
     (let r1 = r\<lparr>created := created r + 1\<rparr>
      in if started
         then (let r2 = r1\<lparr>recognitionRef := Some (created r)\<rparr>
               in if \<not> isRecordingRef r2
                  then r2\<lparr>isRecording := True, isRecordingRef := True\<rparr> else r2)
         else r1)"

text \<open>The loop of \<open>onresult\<close> over \<open>event.results\<close>, with its two accumulators.\<close>

fun chunks :: "result list \<Rightarrow> jsstring \<Rightarrow> jsstring \<Rightarrow> jsstring \<times> jsstring" where
  "chunks [] finalChunk interimChunk = (finalChunk, interimChunk)"
| "chunks (res # rest) finalChunk interimChunk =
     (if isFinal res then chunks rest (finalChunk @ res_transcript res) interimChunk
      else chunks rest finalChunk (interimChunk @ res_transcript res))"

text \<open>\<open>(prev && !prev.endsWith(' ')) ? ' ' : ''\<close>\<close>

definition spacer :: "jsstring \<Rightarrow> jsstring" where
  "spacer prev = (if prev \<noteq> [] \<and> \<not> endsWith_space prev then [0x0020] else [])"

definition onresult :: "result list \<Rightarrow> recorder \<Rightarrow> recorder" where
  "onresult results r =
     (if \<not> isRecordingRef r then r
      else case chunks results [] [] of
        (finalChunk, interimChunk) \<Rightarrow>
          (let r1 = (if finalChunk \<noteq> []
                     then r\<lparr>baseTranscript :=
                              baseTranscript r @ spacer (baseTranscript r) @ trim finalChunk,
                            sessionTranscript := []\<rparr>
                     else r)
           in r1\<lparr>interimTranscript := interimChunk\<rparr>))"

definition onerror :: "speech_error \<Rightarrow> recorder \<Rightarrow> recorder" where
  "onerror kind r =
     (if kind = NoSpeech then r else if kind = NotAllowed then stopRecording r else r)"

definition onend :: "recorder \<Rightarrow> recorder" where
  "onend r = (if isRecordingRef r then r\<lparr>endRestarts := endRestarts r + 1\<rparr> else r)"

text \<open>The callback of the 50 ms timer that \<open>onend\<close> set.\<close>

definition end_restart :: "bool \<Rightarrow> recorder \<Rightarrow> recorder" where
  "end_restart started r =
     (if endRestarts r = 0 then r
      else let r1 = r\<lparr>endRestarts := endRestarts r - 1\<rparr>
           in if isRecordingRef r1 then startRecording started r1 else r1)"

text \<open>The callback of the 800 ms timer that \<open>handleManualEdit\<close> set.\<close>

definition edit_restart :: "bool \<Rightarrow> recorder \<Rightarrow> recorder" where
  "edit_restart started r =
     (if \<not> restartTimeout r then r
      else startRecording started (r\<lparr>restartTimeout := False, isRecordingRef := True\<rparr>))"

definition toggleRecording :: "bool \<Rightarrow> recorder \<Rightarrow> recorder" where
  "toggleRecording started r =
     (if isRecording r
      then (stopRecording r)\<lparr>sessionTranscript := [], interimTranscript := []\<rparr>
      else startRecording started (r\<lparr>baseTranscript := transcript r\<rparr>))"

definition clearTranscript :: "recorder \<Rightarrow> recorder" where
  "clearTranscript r =
     (let r1 = r\<lparr>transcript := [], baseTranscript := [], sessionTranscript := [],
                 interimTranscript := [], notified := notified r @ [Nil]\<rparr>
      in if isRecording r then stopRecording r1 else r1)"

definition handleManualEdit :: "jsstring \<Rightarrow> recorder \<Rightarrow> recorder" where
  "handleManualEdit val r =
     (let r1 = r\<lparr>transcript := val, baseTranscript := val, sessionTranscript := [],
                 interimTranscript := []\<rparr>
      in if isRecording r
         then (let r2 = (if recognitionRef r1 \<noteq> None then r1\<lparr>isRecordingRef := False\<rparr> else r1)
               in r2\<lparr>restartTimeout := True\<rparr>)
         else r1)"

text \<open>\<open>baseTranscript + sessionTranscript + interimTranscript\<close>\<close>

definition fullText :: "recorder \<Rightarrow> jsstring" where
  "fullText r = baseTranscript r @ sessionTranscript r @ interimTranscript r"

text \<open>The "sync with parent" effect.\<close>

definition sync :: "recorder \<Rightarrow> recorder" where
  "sync r =
     (if fullText r \<noteq> transcript r
      then r\<lparr>transcript := fullText r, notified := notified r @ [fullText r]\<rparr>
      else r)"

text \<open>
  The dependencies of that effect (\<open>onTranscriptChange\<close> is the page's state setter and
  never changes), and the effect run to quiescence: a run that stores a new text changes
  a dependency, so the effect runs once more.
\<close>

definition sync_deps :: "recorder \<Rightarrow> jsstring \<times> jsstring \<times> jsstring \<times> jsstring" where
  "sync_deps r = (baseTranscript r, sessionTranscript r, interimTranscript r, transcript r)"

definition settle :: "recorder \<Rightarrow> recorder" where
  "settle r = (let r1 = sync r in if transcript r1 \<noteq> transcript r then sync r1 else r1)"

text \<open>
  What can happen to the recorder. The state updates of one handler are applied together,
  and the sync effect runs on the result, when a dependency has changed, before the next
  event.
\<close>

datatype revent =
    Result "result list"
  | SpeechError speech_error
  | SpeechEnd
  | EndRestartFires bool
  | EditRestartFires bool
  | ToggleClick bool
  | ClearClick
  | ManualEdit jsstring

definition handle :: "revent \<Rightarrow> recorder \<Rightarrow> recorder" where
  "handle e r =
     (case e of
        Result results \<Rightarrow> onresult results r
      | SpeechError kind \<Rightarrow> onerror kind r
      | SpeechEnd \<Rightarrow> onend r
      | EndRestartFires started \<Rightarrow> end_restart started r
      | EditRestartFires started \<Rightarrow> edit_restart started r
      | ToggleClick started \<Rightarrow> toggleRecording started r
      | ClearClick \<Rightarrow> clearTranscript r
      | ManualEdit val \<Rightarrow> handleManualEdit val r)"

definition rstep :: "revent \<Rightarrow> recorder \<Rightarrow> recorder" where
  "rstep e r =
     (let r1 = handle e r in if sync_deps r1 \<noteq> sync_deps r then settle r1 else r1)"

definition rrun :: "revent list \<Rightarrow> recorder \<Rightarrow> recorder" where
  "rrun evs r = foldl (\<lambda>s e. rstep e s) r evs"

definition rinitial :: recorder where
  "rinitial =
     \<lparr>isRecording = False, transcript = [], interimTranscript = [], baseTranscript = [],
      sessionTranscript = [], isRecordingRef = False, recognitionRef = None,
      restartTimeout = False, endRestarts = 0, created = 0, notified = []\<rparr>"

section \<open>Invariants, auxiliary notions and example inputs\<close>

text \<open>
  The guard invariant: the suspended calls are at most one, the ref \<open>processingRef\<close> is
  set exactly while there is one, and the \<open>isProcessing\<close> cell agrees with the ref.
\<close>

definition guard_inv :: "home \<Rightarrow> bool" where
  "guard_inv h \<longleftrightarrow>
     length (inflight h) \<le> 1 \<and> (processingRef h \<longleftrightarrow> inflight h \<noteq> []) \<and>
     isProcessing h = processingRef h"

text \<open>
  The cursor invariant of the data model: \<open>lastProcessedLength\<close> never points beyond
  the end of the transcript once the effects have run.
\<close>

definition cursor_inv :: "home \<Rightarrow> bool" where
  "cursor_inv h \<longleftrightarrow> lastProcessedLength h \<le> length (currentTranscript h)"

text \<open>
  The timer invariant: a pending timer was armed by the render of the current transcript
  and cursor (any change of either clears it), less than its delay ago.
\<close>

definition timer_inv :: "home \<Rightarrow> bool" where
  "timer_inv h \<longleftrightarrow>
     (case pause_timer h of
        None \<Rightarrow> True
      | Some tm \<Rightarrow>
          t_currentTranscript tm = currentTranscript h \<and>
          t_lastProcessedLength tm = lastProcessedLength h \<and>
          t_newText tm = pending h \<and>
          clock h < deadline tm \<and> deadline tm \<le> clock h + 3000)"

text \<open>
  A response fails when it takes any path of \<open>handleGenerateScene\<close> other than the
  \<open>if (data.success && data.image)\<close> branch.
\<close>

definition failed :: "response \<Rightarrow> bool" where
  "failed res = (case res of Json d \<Rightarrow> \<not> usable d | _ \<Rightarrow> True)"

text \<open>
  The events of a round that leave its cursor \<open>p\<close> alone: the round does not settle
  yet, and no new transcript is shorter than \<open>p\<close>.
\<close>

definition during_round :: "nat \<Rightarrow> event \<Rightarrow> bool" where
  "during_round p e =
     (case e of TranscriptChange t \<Rightarrow> p \<le> length t | Response res \<Rightarrow> False | _ \<Rightarrow> True)"

text \<open>
  The round \<open>r\<close>, dispatched at cursor \<open>p\<close>, is in flight and the cursor has not
  moved.
\<close>

definition in_round :: "round \<Rightarrow> nat \<Rightarrow> home \<Rightarrow> bool" where
  "in_round r p h \<longleftrightarrow> inflight h = [r] \<and> processingRef h \<and> lastProcessedLength h = p"

text \<open>
  The page right after a trigger has called \<open>handleGenerateScene\<close> with its pending
  text, as all three triggers do.
\<close>

definition dispatched :: "home \<Rightarrow> home" where
  "dispatched h = handleGenerateScene (pending h) h"

text \<open>
  The spec's wording of the authoritative text, for comparison with \<open>fullText\<close>:
  "\<open>base + session + interim\<close>, concatenated with separator normalization (ensure single
  space boundary)". A space is put between two non-empty parts unless one is already
  there.
\<close>

definition spec_join :: "jsstring \<Rightarrow> jsstring \<Rightarrow> jsstring" where
  "spec_join a b =
     (if a \<noteq> [] \<and> b \<noteq> [] \<and> \<not> endsWith_space a \<and> hd b \<noteq> 0x0020
      then a @ [0x0020] @ b else a @ b)"

definition spec_authoritative :: "jsstring \<Rightarrow> jsstring \<Rightarrow> jsstring \<Rightarrow> jsstring" where
  "spec_authoritative base session interim = spec_join (spec_join base session) interim"

text \<open>
  Concrete inputs: a narration of 25 words and its first 24 words, a short narration and
  a longer one, a successful response, one recognition result, and the states and event
  sequences built from them.
\<close>

definition story25 :: jsstring where
  "story25 = ascii ''a b c d e f g h i j k l m n o p q r s t u v w x y''"

definition story24 :: jsstring where
  "story24 = ascii ''a b c d e f g h i j k l m n o p q r s t u v w x''"

definition narration :: jsstring where
  "narration = ascii ''once upon a time''"

definition narration_more :: jsstring where
  "narration_more = ascii ''once upon a time there''"

definition ok_data :: data where
  "ok_data = \<lparr>success = True, d_image = Some (ascii ''fox.png''), d_narrative = Some story25\<rparr>"

definition demo_idle :: home where
  "demo_idle = run [TranscriptChange story24] (initial 0)"

definition demo_busy :: home where
  "demo_busy = run [TranscriptChange story25] (initial 0)"

definition demo_done :: home where
  "demo_done = run [TranscriptChange story25, Response (Json ok_data)] (initial 0)"

definition demo_paused :: home where
  "demo_paused = run [TranscriptChange narration] (initial 0)"

definition demo_resumed :: home where
  "demo_resumed = run [TranscriptChange narration, Elapse 2000] (initial 0)"

definition said :: "bool \<Rightarrow> string \<Rightarrow> result" where
  "said final cs = \<lparr>isFinal = final, res_transcript = ascii cs\<rparr>"

definition dictation :: "revent list" where
  "dictation =
     [ToggleClick True, Result [said True ''Once upon''], SpeechEnd, EndRestartFires True,
      Result [said False ''a time'']]"

definition dictation_edited :: "revent list" where
  "dictation_edited =
     dictation @ [ManualEdit (ascii ''Once upon''), EditRestartFires True,
                  Result [said False ''a time'']]"

definition listening :: recorder where
  "listening = rrun [ToggleClick True, Result [said True ''Once upon'']] rinitial"

section \<open>Strings\<close>

lemma split_ws_Nil: "split_ws [] = [Nil]"
  by (simp add: split_ws.simps)

lemma wordCount_Nil: "wordCount [] = 0"
  by (simp add: wordCount_def trim_def split_ws_Nil)

lemma wordCount_blank: "trim s = [] \<Longrightarrow> wordCount s = 0"
  by (simp add: wordCount_def split_ws_Nil)

lemma wordCount_pos_not_blank: "0 < wordCount s \<Longrightarrow> trim s \<noteq> []"
  using wordCount_blank [of s] by auto

lemma wordCount_25_ne: "25 \<le> wordCount t \<Longrightarrow> t \<noteq> []"
  using wordCount_Nil by auto

lemma trim_Nil: "trim [] = []"
  by (simp add: trim_def)

section \<open>The effect and the handlers of the page\<close>

lemma handleGenerateScene_frame:
  "currentTranscript (handleGenerateScene text h) = currentTranscript h"
  "lastProcessedLength (handleGenerateScene text h) = lastProcessedLength h"
  "scenes (handleGenerateScene text h) = scenes h"
  "clock (handleGenerateScene text h) = clock h"
  "pause_timer (handleGenerateScene text h) = pause_timer h"
  by (simp_all add: handleGenerateScene_def)

lemma handleGenerateScene_busy: "processingRef h \<Longrightarrow> handleGenerateScene text h = h"
  by (simp add: handleGenerateScene_def)

lemma handleGenerateScene_sets:
  "inflight (handleGenerateScene text h) \<noteq> inflight h \<Longrightarrow>
     processingRef (handleGenerateScene text h)"
  by (simp add: handleGenerateScene_def split: if_splits)

lemma effects_shrink:
  assumes "length (currentTranscript h) < lastProcessedLength h"
  shows "effects h = h\<lparr>lastProcessedLength := length (currentTranscript h),
                       pause_timer := Some \<lparr>deadline = clock h + 3000,
                          t_currentTranscript = currentTranscript h,
                          t_lastProcessedLength = length (currentTranscript h),
                          t_newText = []\<rparr>\<rparr>"
  using assms
  by (simp add: effects_def run_effect_def effect_body_def Let_def slice_def wordCount_Nil)

lemma effects_trigger:
  assumes "25 \<le> wordCount (pending h)" "\<not> processingRef h"
  shows "effects h = h\<lparr>pause_timer := None, processingRef := True, isProcessing := True,
                        inflight := inflight h @
                          [\<lparr>r_text = pending h, r_lengthProcessed = length (pending h)\<rparr>]\<rparr>"
proof -
  have nb: "trim (pending h) \<noteq> []"
    using assms(1) wordCount_pos_not_blank [of "pending h"] by simp
  have ns: "\<not> length (currentTranscript h) < lastProcessedLength h"
  proof
    assume "length (currentTranscript h) < lastProcessedLength h"
    then have "pending h = []" by (simp add: pending_def slice_def)
    with nb show False by (simp add: trim_def)
  qed
  show ?thesis using assms nb ns
    by (simp add: effects_def run_effect_def effect_body_def Let_def pending_def
        handleGenerateScene_def)
qed

lemma effects_arm:
  assumes "\<not> length (currentTranscript h) < lastProcessedLength h"
    and "\<not> (25 \<le> wordCount (pending h) \<and> \<not> processingRef h)"
  shows "effects h = h\<lparr>pause_timer := Some \<lparr>deadline = clock h + 3000,
                          t_currentTranscript = currentTranscript h,
                          t_lastProcessedLength = lastProcessedLength h,
                          t_newText = pending h\<rparr>\<rparr>"
  using assms
  by (auto simp add: effects_def run_effect_def effect_body_def Let_def pending_def)

lemma effects_cases:
  "effects h =
     (if length (currentTranscript h) < lastProcessedLength h
      then h\<lparr>lastProcessedLength := length (currentTranscript h),
             pause_timer := Some \<lparr>deadline = clock h + 3000,
                t_currentTranscript = currentTranscript h,
                t_lastProcessedLength = length (currentTranscript h), t_newText = []\<rparr>\<rparr>
      else if 25 \<le> wordCount (pending h) \<and> \<not> processingRef h
      then h\<lparr>pause_timer := None, processingRef := True, isProcessing := True,
             inflight := inflight h @
               [\<lparr>r_text = pending h, r_lengthProcessed = length (pending h)\<rparr>]\<rparr>
      else h\<lparr>pause_timer := Some \<lparr>deadline = clock h + 3000,
                t_currentTranscript = currentTranscript h,
                t_lastProcessedLength = lastProcessedLength h, t_newText = pending h\<rparr>\<rparr>)"
  using effects_shrink [of h] effects_trigger [of h] effects_arm [of h]
  by (simp split: if_splits)

lemma effects_frame:
  "currentTranscript (effects h) = currentTranscript h"
  "scenes (effects h) = scenes h"
  "clock (effects h) = clock h"
  "lastProcessedLength (effects h) = min (lastProcessedLength h) (length (currentTranscript h))"
  by (simp_all add: effects_cases)

lemma resume_failed:
  "failed res \<Longrightarrow> resume r res h = h\<lparr>processingRef := False, isProcessing := False\<rparr>"
  by (auto simp: failed_def resume_def usable_def split: response.splits option.splits)

lemma resume_usable:
  "usable d \<Longrightarrow> \<exists>i. d_image d = Some i \<and> i \<noteq> [] \<and>
     resume r (Json d) h =
       h\<lparr>scenes := scenes h @ [\<lparr>scene_image = i, scene_narrative = d_narrative d,
                                   scene_id = clock h\<rparr>],
         lastProcessedLength := lastProcessedLength h + r_lengthProcessed r,
         processingRef := False, isProcessing := False\<rparr>"
  by (auto simp: resume_def usable_def split: option.splits)

lemma resume_clears: "\<not> processingRef (resume r res h) \<and> \<not> isProcessing (resume r res h)"
  by (simp add: resume_def Let_def)

lemma step_busy:
  assumes "processingRef h" and "\<forall>res. e \<noteq> Response res"
  shows "inflight (step e h) = inflight h \<and> processingRef (step e h)"
proof (cases e)
  case (TranscriptChange t)
  then show ?thesis using assms(1) by (simp add: step_def effects_cases)
next
  case (Elapse d)
  then show ?thesis using assms(1)
    by (simp add: step_def timer_callback_def split: option.splits)
next
  case ManualClick
  then show ?thesis using assms(1)
    by (simp add: step_def manual_click_def Let_def handleGenerateScene_busy)
next
  case (Response res)
  then show ?thesis using assms(2) by simp
next
  case ClearHistory
  then show ?thesis using assms(1) by (simp add: step_def clear_history_def)
qed

lemma empty_update:
  assumes "currentTranscript h \<noteq> []"
  shows "step (TranscriptChange []) h =
           h\<lparr>currentTranscript := [], lastProcessedLength := 0,
             pause_timer := Some \<lparr>deadline = clock h + 3000, t_currentTranscript = [],
                                  t_lastProcessedLength = 0, t_newText = []\<rparr>\<rparr>"
proof -
  have "step (TranscriptChange []) h = effects (h\<lparr>currentTranscript := []\<rparr>)"
    using assms by (auto simp: step_def)
  then show ?thesis
    by (cases "lastProcessedLength h = 0")
       (simp_all add: effects_cases pending_def slice_def wordCount_Nil)
qed

subsection \<open>The guard invariant\<close>

lemma guard_inv_handleGenerateScene: "guard_inv h \<Longrightarrow> guard_inv (handleGenerateScene text h)"
  by (auto simp: guard_inv_def handleGenerateScene_def)

lemma guard_inv_effect_body: "guard_inv h \<Longrightarrow> guard_inv (effect_body h)"
  using guard_inv_handleGenerateScene [of h]
  by (auto simp: effect_body_def Let_def) (auto simp: guard_inv_def)

lemma guard_inv_run_effect: "guard_inv h \<Longrightarrow> guard_inv (run_effect h)"
  unfolding run_effect_def by (rule guard_inv_effect_body) (simp add: guard_inv_def)

lemma guard_inv_effects: "guard_inv h \<Longrightarrow> guard_inv (effects h)"
  by (simp add: effects_def Let_def guard_inv_run_effect)

lemma guard_inv_timer_callback: "guard_inv h \<Longrightarrow> guard_inv (timer_callback tm h)"
  by (simp add: timer_callback_def guard_inv_handleGenerateScene)

lemma guard_inv_manual_click: "guard_inv h \<Longrightarrow> guard_inv (manual_click h)"
  by (simp add: manual_click_def Let_def guard_inv_handleGenerateScene)

lemma guard_inv_resume:
  "length (inflight h) = 0 \<Longrightarrow> guard_inv (resume r res h)"
  by (auto simp: guard_inv_def resume_def Let_def split: response.splits option.splits)

lemma guard_inv_step: "guard_inv h \<Longrightarrow> guard_inv (step e h)"
proof (cases e)
  case (TranscriptChange t)
  assume "guard_inv h"
  then have "guard_inv (h\<lparr>currentTranscript := t\<rparr>)" by (simp add: guard_inv_def)
  then show ?thesis using TranscriptChange \<open>guard_inv h\<close>
    by (simp add: step_def guard_inv_effects)
next
  case (Elapse d)
  assume g: "guard_inv h"
  then have 1: "guard_inv (h\<lparr>clock := clock h + d\<rparr>)"
    and 2: "guard_inv (h\<lparr>clock := clock h + d, pause_timer := None\<rparr>)"
    by (simp_all add: guard_inv_def)
  show ?thesis using Elapse 1 guard_inv_timer_callback [OF 2]
    by (simp add: step_def split: option.splits)
next
  case ManualClick
  assume "guard_inv h"
  then show ?thesis using ManualClick by (simp add: step_def guard_inv_manual_click)
next
  case (Response res)
  assume g: "guard_inv h"
  show ?thesis
  proof (cases "inflight h")
    case Nil
    then show ?thesis using Response g by (simp add: step_def)
  next
    case (Cons r rs)
    with g have "rs = []" by (simp add: guard_inv_def)
    then have "guard_inv (resume r res (h\<lparr>inflight := rs\<rparr>))"
      by (simp add: guard_inv_resume)
    then show ?thesis using Response Cons
      by (simp add: step_def Let_def guard_inv_effects)
  qed
next
  case ClearHistory
  assume "guard_inv h"
  then show ?thesis using ClearHistory by (simp add: step_def clear_history_def guard_inv_def)
qed

lemma guard_inv_run: "guard_inv h \<Longrightarrow> guard_inv (run evs h)"
  unfolding run_def by (induction evs arbitrary: h) (simp_all add: guard_inv_step)

lemma guard_inv_initial: "guard_inv (initial c)"
  unfolding initial_def by (rule guard_inv_effects) (simp add: guard_inv_def)

subsection \<open>The cursor invariant\<close>

lemma cursor_inv_effects: "cursor_inv (effects h)"
  by (simp add: cursor_inv_def effects_frame)

lemma cursor_inv_step: "cursor_inv h \<Longrightarrow> cursor_inv (step e h)"
proof (cases e)
  case (TranscriptChange t)
  assume "cursor_inv h"
  then show ?thesis using TranscriptChange by (simp add: step_def cursor_inv_effects)
next
  case (Elapse d)
  assume "cursor_inv h"
  then show ?thesis using Elapse
    by (simp add: step_def cursor_inv_def timer_callback_def handleGenerateScene_frame
        split: option.splits)
next
  case ManualClick
  assume "cursor_inv h"
  then show ?thesis using ManualClick
    by (simp add: step_def cursor_inv_def manual_click_def Let_def handleGenerateScene_frame)
next
  case (Response res)
  assume i: "cursor_inv h"
  show ?thesis
  proof (cases "inflight h")
    case Nil
    then show ?thesis using Response i by (simp add: step_def)
  next
    case (Cons r rs)
    have "currentTranscript (resume r res (h\<lparr>inflight := rs\<rparr>)) = currentTranscript h"
      by (simp add: resume_def Let_def split: response.splits option.splits)
    then show ?thesis using Response Cons i
      by (simp add: step_def Let_def cursor_inv_effects) (simp add: cursor_inv_def)
  qed
next
  case ClearHistory
  assume "cursor_inv h"
  then show ?thesis using ClearHistory by (simp add: step_def clear_history_def cursor_inv_def)
qed

lemma cursor_inv_run: "cursor_inv h \<Longrightarrow> cursor_inv (run evs h)"
  unfolding run_def by (induction evs arbitrary: h) (simp_all add: cursor_inv_step)

lemma cursor_inv_initial: "cursor_inv (initial c)"
  unfolding initial_def by (rule cursor_inv_effects)

subsection \<open>Narration after the transcript has been cleared\<close>

lemma clear_update:
  assumes "cursor_inv h"
  shows "currentTranscript (step (TranscriptChange []) h) = []
       \<and> lastProcessedLength (step (TranscriptChange []) h) = 0
       \<and> scenes (step (TranscriptChange []) h) = scenes h
       \<and> inflight (step (TranscriptChange []) h) = inflight h
       \<and> processingRef (step (TranscriptChange []) h) = processingRef h
       \<and> clock (step (TranscriptChange []) h) = clock h"
proof (cases "currentTranscript h = []")
  case True
  then show ?thesis using assms by (simp add: step_def cursor_inv_def)
next
  case False
  then show ?thesis by (simp add: empty_update)
qed

lemma narrate_from_zero:
  assumes "lastProcessedLength h = 0" and "currentTranscript h = []"
    and "\<not> processingRef h" and "t \<noteq> []"
  shows "step (TranscriptChange t) h =
           (if 25 \<le> wordCount t
            then h\<lparr>currentTranscript := t, pause_timer := None, processingRef := True,
                   isProcessing := True,
                   inflight := inflight h @ [\<lparr>r_text = t, r_lengthProcessed = length t\<rparr>]\<rparr>
            else h\<lparr>currentTranscript := t,
                   pause_timer := Some \<lparr>deadline = clock h + 3000, t_currentTranscript = t,
                                        t_lastProcessedLength = 0, t_newText = t\<rparr>\<rparr>)"
proof -
  let ?g = "h\<lparr>currentTranscript := t\<rparr>"
  have p: "pending ?g = t" using assms(1) by (simp add: pending_def slice_def)
  have s: "step (TranscriptChange t) h = effects ?g"
    using assms(2,4) by (simp add: step_def)
  show ?thesis unfolding s using assms(1,3) by (simp add: effects_cases p)
qed

lemma pause_from_zero:
  assumes "lastProcessedLength h = 0" and "currentTranscript h = []"
    and "\<not> processingRef h" and "t \<noteq> []" and "wordCount t < 25" and "3000 \<le> d"
  shows "step (Elapse d) (step (TranscriptChange t) h) =
           (if 10 < length t \<and> trim t \<noteq> []
            then h\<lparr>currentTranscript := t, clock := clock h + d, pause_timer := None,
                   processingRef := True, isProcessing := True,
                   inflight := inflight h @ [\<lparr>r_text = t, r_lengthProcessed = length t\<rparr>]\<rparr>
            else h\<lparr>currentTranscript := t, clock := clock h + d, pause_timer := None\<rparr>)"
proof -
  have e: "step (TranscriptChange t) h =
      h\<lparr>currentTranscript := t,
        pause_timer := Some \<lparr>deadline = clock h + 3000, t_currentTranscript = t,
                             t_lastProcessedLength = 0, t_newText = t\<rparr>\<rparr>"
    using narrate_from_zero [OF assms(1-4)] assms(5) by simp
  show ?thesis unfolding e using assms(3,6)
    by (simp add: step_def timer_callback_def handleGenerateScene_def)
qed

subsection \<open>The timer invariant\<close>

lemma timer_inv_effects: "timer_inv (effects h)"
  by (simp add: effects_cases timer_inv_def pending_def slice_def)

lemma timer_inv_handleGenerateScene:
  "timer_inv h \<Longrightarrow> timer_inv (handleGenerateScene text h)"
  by (simp add: timer_inv_def handleGenerateScene_def pending_def split: option.splits)

lemma timer_inv_resume_same:
  assumes "timer_inv h"
    and "lastProcessedLength (resume r res (h\<lparr>inflight := rs\<rparr>)) = lastProcessedLength h"
  shows "timer_inv (resume r res (h\<lparr>inflight := rs\<rparr>))"
  using assms
  by (auto simp: timer_inv_def resume_def Let_def pending_def
      split: option.splits response.splits if_splits)

lemma timer_inv_step: "timer_inv h \<Longrightarrow> timer_inv (step e h)"
proof (cases e)
  case (TranscriptChange t)
  assume "timer_inv h"
  then show ?thesis using TranscriptChange by (simp add: step_def timer_inv_effects)
next
  case (Elapse d)
  assume i: "timer_inv h"
  show ?thesis
  proof (cases "pause_timer h")
    case None
    then show ?thesis using Elapse by (simp add: step_def timer_inv_def)
  next
    case (Some tm)
    have "timer_inv (h\<lparr>clock := clock h + d, pause_timer := None\<rparr>)"
      by (simp add: timer_inv_def)
    then have "timer_inv (timer_callback tm (h\<lparr>clock := clock h + d, pause_timer := None\<rparr>))"
      unfolding timer_callback_def by (simp add: timer_inv_handleGenerateScene)
    moreover have "\<not> deadline tm \<le> clock h + d \<Longrightarrow> timer_inv (h\<lparr>clock := clock h + d\<rparr>)"
      using i Some by (simp add: timer_inv_def pending_def)
    ultimately show ?thesis using Elapse Some by (simp add: step_def)
  qed
next
  case ManualClick
  assume "timer_inv h"
  then show ?thesis using ManualClick
    by (simp add: step_def manual_click_def Let_def timer_inv_handleGenerateScene)
next
  case (Response res)
  assume i: "timer_inv h"
  show ?thesis
  proof (cases "inflight h")
    case Nil
    then show ?thesis using Response i by (simp add: step_def)
  next
    case (Cons r rs)
    then show ?thesis using Response timer_inv_resume_same [OF i, of r res rs]
      by (simp add: step_def Let_def timer_inv_effects)
  qed
next
  case ClearHistory
  assume "timer_inv h"
  then show ?thesis using ClearHistory
    by (simp add: step_def clear_history_def timer_inv_def pending_def split: option.splits)
qed

lemma timer_inv_run: "timer_inv h \<Longrightarrow> timer_inv (run evs h)"
  unfolding run_def by (induction evs arbitrary: h) (simp_all add: timer_inv_step)

lemma timer_inv_initial: "timer_inv (initial c)"
  unfolding initial_def by (rule timer_inv_effects)

lemma elapse_armed:
  assumes "timer_inv h" and "pause_timer h = Some tm"
  shows "clock h < deadline tm \<and> deadline tm \<le> clock h + 3000
       \<and> (clock h + d < deadline tm \<longrightarrow> step (Elapse d) h = h\<lparr>clock := clock h + d\<rparr>)
       \<and> (deadline tm \<le> clock h + d \<longrightarrow>
            step (Elapse d) h =
              (if lastProcessedLength h + 10 < length (currentTranscript h) \<and>
                  trim (pending h) \<noteq> [] \<and> \<not> processingRef h
               then h\<lparr>clock := clock h + d, pause_timer := None, processingRef := True,
                      isProcessing := True,
                      inflight := inflight h @
                        [\<lparr>r_text = pending h, r_lengthProcessed = length (pending h)\<rparr>]\<rparr>
               else h\<lparr>clock := clock h + d, pause_timer := None\<rparr>))"
  using assms
  by (auto simp: timer_inv_def step_def timer_callback_def handleGenerateScene_def)

lemma change_timer:
  assumes "t \<noteq> currentTranscript h"
  shows "pause_timer (step (TranscriptChange t) h) =
           (if length t \<ge> lastProcessedLength h \<and>
               25 \<le> wordCount (slice t (lastProcessedLength h)) \<and> \<not> processingRef h
            then None
            else Some \<lparr>deadline = clock h + 3000, t_currentTranscript = t,
                        t_lastProcessedLength = min (lastProcessedLength h) (length t),
                        t_newText = slice t (min (lastProcessedLength h) (length t))\<rparr>)"
  using assms by (auto simp: step_def effects_cases pending_def slice_def min_def)

lemma change_then_wait:
  assumes "t \<noteq> currentTranscript h" and "d < 3000"
  shows "step (Elapse d) (step (TranscriptChange t) h) =
           (step (TranscriptChange t) h)\<lparr>clock := clock h + d\<rparr>"
  using assms by (auto simp: step_def effects_cases)

subsection \<open>The three triggers dispatch the pending text\<close>

lemma word_count_dispatches:
  assumes "\<not> processingRef h" and "t \<noteq> currentTranscript h"
    and "25 \<le> wordCount (slice t (lastProcessedLength h))"
  shows "step (TranscriptChange t) h = dispatched (h\<lparr>currentTranscript := t, pause_timer := None\<rparr>)"
proof -
  let ?h = "h\<lparr>currentTranscript := t\<rparr>"
  have p: "pending ?h = slice t (lastProcessedLength h)" by (simp add: pending_def)
  have "trim (pending ?h) \<noteq> []"
    using assms(3) wordCount_pos_not_blank [of "pending ?h"] unfolding p by simp
  then show ?thesis
    using assms effects_trigger [of ?h] unfolding p
    by (simp add: step_def dispatched_def handleGenerateScene_def pending_def)
qed

lemma manual_click_dispatches:
  assumes "\<not> isProcessing h" and "\<not> processingRef h" and "3 < length (trim (pending h))"
  shows "step ManualClick h = dispatched h"
proof -
  from assms(3) have "trim (pending h) \<noteq> []" by auto
  then have "currentTranscript h \<noteq> []"
    by (auto simp: pending_def slice_def trim_Nil)
  then show ?thesis using assms
    by (simp add: step_def manual_click_def Let_def dispatched_def pending_def)
qed

lemma pause_timer_dispatches:
  assumes "timer_inv h" and "pause_timer h = Some tm" and "deadline tm \<le> clock h + d"
    and "lastProcessedLength h + 10 < length (currentTranscript h)"
    and "trim (pending h) \<noteq> []" and "\<not> processingRef h"
  shows "step (Elapse d) h = dispatched (h\<lparr>clock := clock h + d, pause_timer := None\<rparr>)"
  using assms
  by (simp add: timer_inv_def step_def timer_callback_def dispatched_def pending_def)

subsection \<open>A round in flight\<close>

lemma in_round_step:
  assumes "in_round r p h" and "during_round p e"
  shows "in_round r p (step e h)"
proof (cases e)
  case (TranscriptChange t)
  with assms have "\<not> length t < lastProcessedLength h"
    by (simp add: during_round_def in_round_def)
  then show ?thesis using TranscriptChange assms(1)
    by (simp add: step_def effects_cases in_round_def)
next
  case (Elapse d)
  then show ?thesis using assms(1)
    by (simp add: step_def timer_callback_def in_round_def split: option.splits)
next
  case ManualClick
  then show ?thesis using assms(1)
    by (simp add: step_def manual_click_def Let_def handleGenerateScene_busy in_round_def)
next
  case (Response res)
  then show ?thesis using assms(2) by (simp add: during_round_def)
next
  case ClearHistory
  then show ?thesis using assms(1) by (simp add: step_def clear_history_def in_round_def)
qed

lemma in_round_run:
  "in_round r p h \<Longrightarrow> \<forall>e\<in>set evs. during_round p e \<Longrightarrow> in_round r p (run evs h)"
proof (induction evs arbitrary: h)
  case Nil
  then show ?case by (simp add: run_def)
next
  case (Cons e evs)
  from Cons.prems have "in_round r p (step e h)" by (simp add: in_round_step)
  from Cons.IH [OF this] Cons.prems show ?case by (simp add: run_def)
qed

lemma commit_step:
  assumes r: "in_round r p h" and L: "r_lengthProcessed r = length t0 - p" and p: "p < length t0"
    and pre: "prefix t0 (currentTranscript h)" and u: "usable d"
  shows "lastProcessedLength (step (Response (Json d)) h) = length t0
       \<and> currentTranscript (step (Response (Json d)) h) = currentTranscript h
       \<and> (\<exists>i. d_image d = Some i \<and> scenes (step (Response (Json d)) h) =
            scenes h @ [\<lparr>scene_image = i, scene_narrative = d_narrative d, scene_id = clock h\<rparr>])"
proof -
  let ?h0 = "h\<lparr>inflight := []\<rparr>"
  from resume_usable [OF u, of r ?h0] obtain i where i: "d_image d = Some i"
    and res: "resume r (Json d) ?h0 =
       ?h0\<lparr>scenes := scenes ?h0 @ [\<lparr>scene_image = i, scene_narrative = d_narrative d,
                                   scene_id = clock ?h0\<rparr>],
         lastProcessedLength := lastProcessedLength ?h0 + r_lengthProcessed r,
         processingRef := False, isProcessing := False\<rparr>" by blast
  let ?h1 = "resume r (Json d) ?h0"
  from r have pl: "lastProcessedLength h = p" and inf: "inflight h = [r]"
    by (simp_all add: in_round_def)
  have l1: "lastProcessedLength ?h1 = length t0" using pl L p unfolding res by simp
  have ne: "lastProcessedLength ?h1 \<noteq> lastProcessedLength h" using l1 pl p by simp
  have st: "step (Response (Json d)) h = effects ?h1"
    using inf ne by (simp add: step_def Let_def)
  have ct: "currentTranscript ?h1 = currentTranscript h" unfolding res by simp
  have "length t0 \<le> length (currentTranscript h)" using pre by (rule prefix_length_le)
  then have "lastProcessedLength (effects ?h1) = length t0"
    using l1 ct by (simp add: effects_frame)
  moreover have "scenes (effects ?h1) =
       scenes h @ [\<lparr>scene_image = i, scene_narrative = d_narrative d, scene_id = clock h\<rparr>]"
    unfolding effects_frame res by simp
  ultimately show ?thesis using i ct unfolding st by (simp add: effects_frame)
qed

section \<open>The handlers of the recorder\<close>

lemma chunks_acc:
  "chunks results f i =
     (f @ concat (map res_transcript (filter isFinal results)),
      i @ concat (map res_transcript (filter (\<lambda>res. \<not> isFinal res) results)))"
  by (induction results arbitrary: f i) simp_all

lemma chunks_eq:
  "chunks results [] [] =
     (concat (map res_transcript (filter isFinal results)),
      concat (map res_transcript (filter (\<lambda>res. \<not> isFinal res) results)))"
  by (simp add: chunks_acc)

lemma sync_established: "transcript (sync r) = fullText (sync r)"
  by (simp add: sync_def fullText_def)

lemma sync_frame:
  "baseTranscript (sync r) = baseTranscript r"
  "sessionTranscript (sync r) = sessionTranscript r"
  "interimTranscript (sync r) = interimTranscript r"
  "isRecordingRef (sync r) = isRecordingRef r"
  "isRecording (sync r) = isRecording r"
  by (simp_all add: sync_def)

lemma fullText_sync: "fullText (sync r) = fullText r"
  by (simp add: fullText_def sync_frame)

lemma settle_eq: "settle r = sync r"
  by (simp add: settle_def sync_def fullText_def Let_def)

lemma rstep_settled:
  assumes "transcript r = fullText r"
  shows "rstep e r = sync (handle e r)"
proof (cases "sync_deps (handle e r) = sync_deps r")
  case True
  then have "fullText (handle e r) = fullText r" "transcript (handle e r) = transcript r"
    by (simp_all add: sync_deps_def fullText_def)
  with assms have "sync (handle e r) = handle e r" by (simp add: sync_def)
  with True show ?thesis by (simp add: rstep_def)
next
  case False
  then show ?thesis by (simp add: rstep_def settle_eq)
qed

lemma rstep_frame:
  "baseTranscript (rstep e r) = baseTranscript (handle e r)"
  "sessionTranscript (rstep e r) = sessionTranscript (handle e r)"
  "interimTranscript (rstep e r) = interimTranscript (handle e r)"
  by (simp_all add: rstep_def Let_def settle_eq sync_frame)

lemma handle_notified:
  "notified (handle e r) = notified r \<or>
   (e = ClearClick \<and> notified (handle e r) = notified r @ [Nil] \<and> fullText (handle e r) = []
      \<and> transcript (handle e r) = [])"
  by (cases e)
    (auto simp: handle_def onresult_def onerror_def onend_def end_restart_def edit_restart_def
      toggleRecording_def clearTranscript_def handleManualEdit_def startRecording_def
      stopRecording_def Let_def fullText_def split: prod.splits)

lemma sync_handle_notified:
  "notified (sync (handle e r)) = notified r \<or>
   notified (sync (handle e r)) = notified r @ [fullText (sync (handle e r))]"
proof -
  let ?r = "handle e r"
  from handle_notified [of e r] show ?thesis
  proof
    assume "notified ?r = notified r"
    then show ?thesis by (auto simp: sync_def fullText_def)
  next
    assume "e = ClearClick \<and> notified ?r = notified r @ [Nil] \<and> fullText ?r = [] \<and> transcript ?r = []"
    then show ?thesis by (auto simp: sync_def fullText_def)
  qed
qed

lemma sync_result_notifies_iff:
  "notified (sync (handle (Result results) r)) =
     (if fullText (sync (handle (Result results) r)) \<noteq> transcript r
      then notified r @ [fullText (sync (handle (Result results) r))] else notified r)"
proof -
  have "transcript (handle (Result results) r) = transcript r"
    "notified (handle (Result results) r) = notified r"
    by (auto simp: handle_def onresult_def Let_def split: prod.splits)
  then show ?thesis unfolding fullText_sync by (simp add: sync_def)
qed

lemma settled_rstep:
  "transcript r = fullText r \<Longrightarrow> transcript (rstep e r) = fullText (rstep e r)"
  by (simp add: rstep_settled sync_established)

lemma settled_rrun:
  "transcript r = fullText r \<Longrightarrow> transcript (rrun evs r) = fullText (rrun evs r)"
  unfolding rrun_def by (induction evs arbitrary: r) (simp_all add: settled_rstep)

lemma settled_rinitial: "transcript rinitial = fullText rinitial"
  by (simp add: rinitial_def fullText_def)

lemma clear_click:
  "rstep ClearClick r =
     (if isRecording r then stopRecording r else r)
       \<lparr>transcript := [], baseTranscript := [], sessionTranscript := [],
        interimTranscript := [], notified := notified r @ [Nil]\<rparr>"
  by (simp add: rstep_def handle_def clearTranscript_def settle_eq sync_def fullText_def
      Let_def stopRecording_def)

section \<open>The example inputs, evaluated\<close>

lemmas home_eval = run_def step_def effects_cases pending_def slice_def timer_callback_def
  manual_click_def handleGenerateScene_def resume_def clear_history_def Let_def

lemmas rec_eval = rrun_def rstep_def sync_deps_def settle_def handle_def sync_def fullText_def onresult_def
  onend_def end_restart_def toggleRecording_def startRecording_def stopRecording_def handleManualEdit_def
  edit_restart_def clearTranscript_def spacer_def endsWith_space_def Let_def said_def

lemma story25_facts:
  "length story25 = 49" "trim story25 = story25" "wordCount story25 = 25"
  by (simp_all add: story25_def ascii_def wordCount_def trim_def is_space_def split_ws.simps)

lemma story24_facts:
  "length story24 = 47" "trim story24 = story24" "wordCount story24 = 24"
  by (simp_all add: story24_def ascii_def wordCount_def trim_def is_space_def split_ws.simps)

lemma story_ne: "story25 \<noteq> []" "story24 \<noteq> []" "story24 \<noteq> story25" "story25 \<noteq> story24"
  using story25_facts(1) story24_facts(1) by auto

lemma story25_extends: "story25 = story24 @ ascii '' y''"
  by (simp add: story25_def story24_def ascii_def)

lemma narration_facts:
  "length narration = 16" "trim narration = narration" "wordCount narration = 4"
  "length narration_more = 22" "trim narration_more = narration_more" "wordCount narration_more = 5"
  by (simp_all add: narration_def narration_more_def ascii_def wordCount_def trim_def is_space_def
      split_ws.simps)

lemma narration_ne: "narration \<noteq> []" "narration_more \<noteq> []" "narration_more \<noteq> narration"
  using narration_facts(1,4) by auto

lemma narration_story: "narration \<noteq> story24" "narration \<noteq> story25"
  using narration_facts(1) story24_facts(1) story25_facts(1) by auto

lemma usable_ok: "usable ok_data"
  by (simp add: usable_def ok_data_def ascii_def)

lemma initial_eq:
  "initial c = \<lparr>scenes = [], currentTranscript = [], isProcessing = False,
              lastProcessedLength = 0, processingRef = False,
              pause_timer = Some \<lparr>deadline = c + 3000, t_currentTranscript = [],
                                   t_lastProcessedLength = 0, t_newText = []\<rparr>,
              inflight = [], clock = c\<rparr>"
  by (simp add: initial_def effects_cases pending_def slice_def wordCount_Nil)

lemma after_story25:
  "run [TranscriptChange story25] (initial 0) =
     \<lparr>scenes = [], currentTranscript = story25, isProcessing = True,
      lastProcessedLength = 0, processingRef = True, pause_timer = None,
      inflight = [\<lparr>r_text = story25, r_lengthProcessed = 49\<rparr>], clock = 0\<rparr>"
  using story_ne(1)
  by (simp add: run_def step_def initial_eq effects_cases pending_def slice_def story25_facts)

lemma after_story24:
  "run [TranscriptChange story24] (initial 0) =
     \<lparr>scenes = [], currentTranscript = story24, isProcessing = False,
      lastProcessedLength = 0, processingRef = False,
      pause_timer = Some \<lparr>deadline = 3000, t_currentTranscript = story24,
                           t_lastProcessedLength = 0, t_newText = story24\<rparr>,
      inflight = [], clock = 0\<rparr>"
  using story_ne(2)
  by (simp add: run_def step_def initial_eq effects_cases pending_def slice_def story24_facts)

lemma demo_idle_eq:
  "demo_idle =
     \<lparr>scenes = [], currentTranscript = story24, isProcessing = False,
      lastProcessedLength = 0, processingRef = False,
      pause_timer = Some \<lparr>deadline = 3000, t_currentTranscript = story24,
                           t_lastProcessedLength = 0, t_newText = story24\<rparr>,
      inflight = [], clock = 0\<rparr>"
  unfolding demo_idle_def by (rule after_story24)

lemma demo_busy_eq:
  "demo_busy =
     \<lparr>scenes = [], currentTranscript = story25, isProcessing = True,
      lastProcessedLength = 0, processingRef = True, pause_timer = None,
      inflight = [\<lparr>r_text = story25, r_lengthProcessed = 49\<rparr>], clock = 0\<rparr>"
  unfolding demo_busy_def by (rule after_story25)

lemma demo_done_eq:
  "demo_done =
     \<lparr>scenes = [\<lparr>scene_image = ascii ''fox.png'', scene_narrative = Some story25,
                 scene_id = 0\<rparr>],
      currentTranscript = story25, isProcessing = False,
      lastProcessedLength = 49, processingRef = False,
      pause_timer = Some \<lparr>deadline = 3000, t_currentTranscript = story25,
                           t_lastProcessedLength = 49, t_newText = []\<rparr>,
      inflight = [], clock = 0\<rparr>"
proof -
  have "demo_done = step (Response (Json ok_data)) demo_busy"
    by (simp add: demo_done_def demo_busy_def run_def)
  then show ?thesis unfolding demo_busy_eq
    by (simp add: home_eval ok_data_def ascii_def [of "''fox.png''"] story25_facts
        wordCount_Nil)
qed

lemma demo_paused_eq:
  "demo_paused =
     \<lparr>scenes = [], currentTranscript = narration, isProcessing = False,
      lastProcessedLength = 0, processingRef = False,
      pause_timer = Some \<lparr>deadline = 3000, t_currentTranscript = narration,
                           t_lastProcessedLength = 0, t_newText = narration\<rparr>,
      inflight = [], clock = 0\<rparr>"
  unfolding demo_paused_def using narration_ne
  by (simp add: run_def step_def initial_eq effects_cases pending_def slice_def narration_facts)

lemma demo_resumed_eq: "demo_resumed = demo_paused\<lparr>clock := 2000\<rparr>"
proof -
  have "demo_resumed = step (Elapse 2000) demo_paused"
    by (simp add: demo_resumed_def demo_paused_def run_def)
  then show ?thesis by (simp add: demo_paused_eq step_def)
qed

lemma after_dictation:
  "rrun dictation rinitial =
     \<lparr>isRecording = True, transcript = ascii ''Once upona time'',
      interimTranscript = ascii ''a time'', baseTranscript = ascii ''Once upon'',
      sessionTranscript = [], isRecordingRef = True, recognitionRef = Some 1,
      restartTimeout = False, endRestarts = 0, created = 2,
      notified = [ascii ''Once upon'', ascii ''Once upona time'']\<rparr>"
  unfolding dictation_def rinitial_def
  by (simp add: rec_eval trim_def is_space_def ascii_def)

lemma after_dictation_edited:
  "rrun dictation_edited rinitial =
     \<lparr>isRecording = True, transcript = ascii ''Once upona time'',
      interimTranscript = ascii ''a time'', baseTranscript = ascii ''Once upon'',
      sessionTranscript = [], isRecordingRef = True, recognitionRef = Some 2,
      restartTimeout = False, endRestarts = 0, created = 3,
      notified = [ascii ''Once upon'', ascii ''Once upona time'', ascii ''Once upona time'']\<rparr>"
proof -
  have "rrun dictation_edited rinitial =
      rrun [ManualEdit (ascii ''Once upon''), EditRestartFires True,
            Result [said False ''a time'']] (rrun dictation rinitial)"
    by (simp add: dictation_edited_def rrun_def)
  then show ?thesis unfolding after_dictation
    by (simp add: rec_eval ascii_def)
qed

lemma after_dictation_edit:
  "rrun (dictation @ [ManualEdit (ascii ''Once upon'')]) rinitial =
     \<lparr>isRecording = True, transcript = ascii ''Once upon'',
      interimTranscript = [], baseTranscript = ascii ''Once upon'',
      sessionTranscript = [], isRecordingRef = False, recognitionRef = Some 1,
      restartTimeout = True, endRestarts = 0, created = 2,
      notified = [ascii ''Once upon'', ascii ''Once upona time'']\<rparr>"
proof -
  have "rrun (dictation @ [ManualEdit (ascii ''Once upon'')]) rinitial =
      rstep (ManualEdit (ascii ''Once upon'')) (rrun dictation rinitial)"
    by (simp add: rrun_def)
  then show ?thesis unfolding after_dictation
    by (simp add: rec_eval ascii_def)
qed

lemma listening_eq:
  "listening =
     \<lparr>isRecording = True, transcript = ascii ''Once upon'', interimTranscript = [],
      baseTranscript = ascii ''Once upon'', sessionTranscript = [], isRecordingRef = True,
      recognitionRef = Some 0, restartTimeout = False, endRestarts = 0, created = 1,
      notified = [ascii ''Once upon'']\<rparr>"
  unfolding listening_def rinitial_def
  by (simp add: rec_eval trim_def is_space_def ascii_def)

section \<open>The claims\<close>

text \<open>
  C1. A round is dispatched with the pending text of a page that has nothing in flight.
  While it is in flight no update is shorter than the cursor (the timer may run and the
  button may be clicked), and when it settles the transcript has grown: it is the
  transcript the round was dispatched from, followed by more text. When the round then
  succeeds, \<open>lastProcessedLength\<close> has advanced by exactly the length of the text that
  was dispatched, not to the length of the current transcript; the pending text after the
  commit is exactly what was added during the round, so nothing is lost and nothing is
  duplicated; one scene has been appended.
\<close>

theorem commit_advances_by_dispatched_length:
  assumes "inflight h = []" and "\<not> processingRef h" and "trim (pending h) \<noteq> []"
    and "\<forall>e\<in>set evs. during_round (lastProcessedLength h) e"
    and "prefix (currentTranscript h) (currentTranscript (run evs (dispatched h)))"
    and "usable d"
  shows "lastProcessedLength (step (Response (Json d)) (run evs (dispatched h))) =
           lastProcessedLength h + length (pending h)
       \<and> currentTranscript (step (Response (Json d)) (run evs (dispatched h))) =
           currentTranscript (run evs (dispatched h))
       \<and> currentTranscript (step (Response (Json d)) (run evs (dispatched h))) =
           currentTranscript h @ pending (step (Response (Json d)) (run evs (dispatched h)))
       \<and> pending (step (Response (Json d)) (run evs (dispatched h))) =
           drop (length (currentTranscript h)) (currentTranscript (run evs (dispatched h)))
       \<and> (currentTranscript (run evs (dispatched h)) \<noteq> currentTranscript h \<longrightarrow>
            lastProcessedLength (step (Response (Json d)) (run evs (dispatched h))) <
              length (currentTranscript (step (Response (Json d)) (run evs (dispatched h)))))
       \<and> (\<exists>i. d_image d = Some i \<and>
            scenes (step (Response (Json d)) (run evs (dispatched h))) =
              scenes (run evs (dispatched h)) @
                [\<lparr>scene_image = i, scene_narrative = d_narrative d,
                  scene_id = clock (run evs (dispatched h))\<rparr>])"
proof -
  define h2 where "h2 = run evs (dispatched h)"
  define h3 where "h3 = step (Response (Json d)) h2"
  let ?t0 = "currentTranscript h" and ?p = "lastProcessedLength h"
  let ?r = "\<lparr>r_text = pending h, r_lengthProcessed = length (pending h)\<rparr>"
  from assms(3) have pn: "pending h \<noteq> []" by (auto simp: trim_Nil)
  then have p: "?p < length ?t0" by (simp add: pending_def slice_def)
  have len: "length (pending h) = length ?t0 - ?p" by (simp add: pending_def slice_def)
  have "in_round ?r ?p (dispatched h)"
    using assms(1,2,3) by (simp add: in_round_def dispatched_def handleGenerateScene_def)
  then have r2: "in_round ?r ?p h2"
    unfolding h2_def using assms(4) by (rule in_round_run)
  have pre: "prefix ?t0 (currentTranscript h2)" unfolding h2_def by (rule assms(5))
  from commit_step [OF r2 _ p pre assms(6)] len
  have l3: "lastProcessedLength h3 = length ?t0"
    and c3: "currentTranscript h3 = currentTranscript h2"
    and s3: "\<exists>i. d_image d = Some i \<and>
            scenes h3 = scenes h2 @ [\<lparr>scene_image = i, scene_narrative = d_narrative d,
                                      scene_id = clock h2\<rparr>]"
    unfolding h3_def by simp_all
  from pre obtain extra where ex: "currentTranscript h2 = ?t0 @ extra"
    by (auto simp: prefix_def)
  have p3: "pending h3 = extra" using l3 c3 ex by (simp add: pending_def slice_def)
  have "lastProcessedLength h3 = lastProcessedLength h + length (pending h)
       \<and> currentTranscript h3 = currentTranscript h2
       \<and> currentTranscript h3 = currentTranscript h @ pending h3
       \<and> pending h3 = drop (length (currentTranscript h)) (currentTranscript h2)
       \<and> (currentTranscript h2 \<noteq> currentTranscript h \<longrightarrow>
            lastProcessedLength h3 < length (currentTranscript h3))
       \<and> (\<exists>i. d_image d = Some i \<and>
            scenes h3 = scenes h2 @ [\<lparr>scene_image = i, scene_narrative = d_narrative d,
                                      scene_id = clock h2\<rparr>])"
    using l3 c3 s3 ex p3 p len by auto
  then show ?thesis unfolding h3_def h2_def .
qed

theorem commit_witness:
  "inflight demo_idle = [] \<and> \<not> processingRef demo_idle \<and> trim (pending demo_idle) \<noteq> []
   \<and> during_round (lastProcessedLength demo_idle) (TranscriptChange narration)
   \<and> during_round (lastProcessedLength demo_idle) (Elapse 4000)
   \<and> during_round (lastProcessedLength demo_idle) ManualClick
   \<and> during_round (lastProcessedLength demo_idle) (TranscriptChange story25)
   \<and> prefix (currentTranscript demo_idle)
        (currentTranscript
          (run [TranscriptChange narration, Elapse 4000, ManualClick, TranscriptChange story25]
            (dispatched demo_idle)))
   \<and> usable ok_data
   \<and> lastProcessedLength
        (step (Response (Json ok_data))
          (run [TranscriptChange narration, Elapse 4000, ManualClick, TranscriptChange story25]
            (dispatched demo_idle))) = 47
   \<and> pending
        (step (Response (Json ok_data))
          (run [TranscriptChange narration, Elapse 4000, ManualClick, TranscriptChange story25]
            (dispatched demo_idle))) = ascii '' y''"
proof -
  let ?evs = "[TranscriptChange narration, Elapse 4000, ManualClick, TranscriptChange story25]"
  have a: "inflight demo_idle = []" and b: "\<not> processingRef demo_idle"
    and c: "trim (pending demo_idle) \<noteq> []"
    by (simp_all add: demo_idle_eq pending_def slice_def story24_facts story_ne)
  have g: "during_round (lastProcessedLength demo_idle) (TranscriptChange narration)"
    "during_round (lastProcessedLength demo_idle) (Elapse 4000)"
    "during_round (lastProcessedLength demo_idle) ManualClick"
    "during_round (lastProcessedLength demo_idle) (TranscriptChange story25)"
    by (simp_all add: during_round_def demo_idle_eq)
  then have d: "\<forall>e\<in>set ?evs. during_round (lastProcessedLength demo_idle) e" by simp
  have p: "pending demo_idle = story24" by (simp add: demo_idle_eq pending_def slice_def)
  have ct: "currentTranscript (run ?evs (dispatched demo_idle)) = story25"
    unfolding dispatched_def p unfolding demo_idle_eq
    using narration_ne story_ne narration_story
    by (simp add: home_eval story24_facts story25_facts narration_facts)
  have pre: "prefix (currentTranscript demo_idle)
      (currentTranscript (run ?evs (dispatched demo_idle)))"
    unfolding ct by (simp add: demo_idle_eq story25_extends)
  have l0: "length (currentTranscript demo_idle) = 47" "lastProcessedLength demo_idle = 0"
    "length (pending demo_idle) = 47"
    unfolding p by (simp_all add: demo_idle_eq story24_facts)
  have e: "drop 47 story25 = ascii '' y''"
    by (simp add: story25_extends story24_facts)
  let ?h3 = "step (Response (Json ok_data)) (run ?evs (dispatched demo_idle))"
  note T = commit_advances_by_dispatched_length [OF a b c d pre usable_ok]
  have L: "lastProcessedLength ?h3 = lastProcessedLength demo_idle + length (pending demo_idle)"
    by (rule T [THEN conjunct1])
  have P: "pending ?h3 = drop (length (currentTranscript demo_idle))
            (currentTranscript (run ?evs (dispatched demo_idle)))"
    by (rule T [THEN conjunct2, THEN conjunct2, THEN conjunct2, THEN conjunct1])
  have 1: "lastProcessedLength ?h3 = 47" using L l0 by simp
  have 2: "pending ?h3 = ascii '' y''" using P e unfolding ct l0 by simp
  show ?thesis using a b c g pre usable_ok 1 2 by blast
qed

text \<open>
  C2. An update of the transcript to a text shorter than \<open>lastProcessedLength\<close> sets
  \<open>lastProcessedLength\<close> to the new length and changes nothing else but the transcript
  and the timer: no round is dispatched by the update, and none by the timer it leaves
  behind, whenever that runs.
\<close>

theorem shrink_guard_clamps_without_trigger:
  assumes "t \<noteq> currentTranscript h" and "length t < lastProcessedLength h"
  shows "step (TranscriptChange t) h =
           h\<lparr>currentTranscript := t, lastProcessedLength := length t,
             pause_timer := Some \<lparr>deadline = clock h + 3000, t_currentTranscript = t,
                                  t_lastProcessedLength = length t, t_newText = []\<rparr>\<rparr>
         \<and> (\<forall>d. inflight (step (Elapse d) (step (TranscriptChange t) h)) = inflight h)"
proof -
  have 1: "step (TranscriptChange t) h =
           h\<lparr>currentTranscript := t, lastProcessedLength := length t,
             pause_timer := Some \<lparr>deadline = clock h + 3000, t_currentTranscript = t,
                                  t_lastProcessedLength = length t, t_newText = []\<rparr>\<rparr>"
    using assms effects_shrink [of "h\<lparr>currentTranscript := t\<rparr>"]
    by (simp add: step_def)
  have "inflight (step (Elapse d) (step (TranscriptChange t) h)) = inflight h" for d
    unfolding 1 by (simp add: step_def timer_callback_def)
  with 1 show ?thesis by simp
qed

theorem shrink_guard_witness:
  "story24 \<noteq> currentTranscript demo_done \<and> length story24 < lastProcessedLength demo_done
   \<and> lastProcessedLength (step (TranscriptChange story24) demo_done) = 47
   \<and> currentTranscript (step (TranscriptChange story24) demo_done) = story24
   \<and> inflight (step (Elapse 3000) (step (TranscriptChange story24) demo_done)) = []"
proof -
  have a: "story24 \<noteq> currentTranscript demo_done"
    and b: "length story24 < lastProcessedLength demo_done"
    by (simp_all add: demo_done_eq story_ne story24_facts)
  note T = shrink_guard_clamps_without_trigger [OF a b]
  have e: "lastProcessedLength (step (TranscriptChange story24) demo_done) = length story24"
    "currentTranscript (step (TranscriptChange story24) demo_done) = story24"
    by (simp_all add: T [THEN conjunct1])
  have q: "inflight (step (Elapse 3000) (step (TranscriptChange story24) demo_done)) =
      inflight demo_done"
    by (rule T [THEN conjunct2, rule_format])
  have "inflight demo_done = []" by (simp add: demo_done_eq)
  with e q a b show ?thesis by (simp add: story24_facts)
qed

text \<open>
  C3. With nothing in flight, an update of the transcript whose pending text has at
  least 25 words dispatches a round at once, with exactly that pending text; with fewer
  than 25 words (24 in particular) the update dispatches nothing and the guard stays
  clear.
\<close>

theorem word_count_trigger_boundary:
  assumes "\<not> processingRef h" and "t \<noteq> currentTranscript h"
  shows "(25 \<le> wordCount (slice t (lastProcessedLength h)) \<longrightarrow>
            step (TranscriptChange t) h =
              h\<lparr>currentTranscript := t, pause_timer := None, processingRef := True,
                isProcessing := True,
                inflight := inflight h @
                  [\<lparr>r_text = slice t (lastProcessedLength h),
                    r_lengthProcessed = length (slice t (lastProcessedLength h))\<rparr>]\<rparr>)
       \<and> (wordCount (slice t (lastProcessedLength h)) < 25 \<longrightarrow>
            inflight (step (TranscriptChange t) h) = inflight h \<and>
            \<not> processingRef (step (TranscriptChange t) h))"
proof -
  let ?h = "h\<lparr>currentTranscript := t\<rparr>"
  have p: "pending ?h = slice t (lastProcessedLength h)" by (simp add: pending_def)
  have s: "step (TranscriptChange t) h = effects ?h" using assms(2) by (simp add: step_def)
  have np: "\<not> processingRef ?h" using assms(1) by simp
  have a: "25 \<le> wordCount (slice t (lastProcessedLength h)) \<Longrightarrow> ?thesis"
    using effects_trigger [of ?h] np unfolding s p by simp
  have b: "wordCount (slice t (lastProcessedLength h)) < 25 \<Longrightarrow> ?thesis"
    using assms(1) unfolding s by (simp add: effects_cases p)
  show ?thesis using a b by linarith
qed

theorem word_count_witness:
  "\<not> processingRef (initial 0) \<and> story25 \<noteq> currentTranscript (initial 0)
   \<and> story24 \<noteq> currentTranscript (initial 0)
   \<and> wordCount (slice story25 (lastProcessedLength (initial 0))) = 25
   \<and> wordCount (slice story24 (lastProcessedLength (initial 0))) = 24
   \<and> inflight (step (TranscriptChange story25) (initial 0)) =
        [\<lparr>r_text = story25, r_lengthProcessed = 49\<rparr>]
   \<and> inflight (step (TranscriptChange story24) (initial 0)) = []"
proof -
  have a: "\<not> processingRef (initial 0)" and b: "story25 \<noteq> currentTranscript (initial 0)"
    and c: "story24 \<noteq> currentTranscript (initial 0)"
    by (simp_all add: initial_eq story_ne)
  have w: "wordCount (slice story25 (lastProcessedLength (initial 0))) = 25"
    "wordCount (slice story24 (lastProcessedLength (initial 0))) = 24"
    by (simp_all add: initial_eq slice_def story25_facts story24_facts)
  from word_count_trigger_boundary [OF a b] word_count_trigger_boundary [OF a c] w a b c
  show ?thesis by (simp add: initial_eq slice_def story25_facts)
qed

text \<open>
  C4. In every state the page can reach there is at most one round in flight, and the
  guard \<open>processingRef\<close> is set exactly when there is one. While it is set,
  \<open>handleGenerateScene\<close> does nothing for any text, and no event other than the
  settling of the round (transcript update, timer, button, clearing) changes the rounds
  in flight. Whenever \<open>handleGenerateScene\<close> does send a request, the guard is set in
  the state it suspends in, and when the request settles, on every outcome, the guard is
  cleared.
\<close>

theorem single_round_in_flight:
  "length (inflight (run evs (initial c))) \<le> 1
   \<and> (processingRef (run evs (initial c)) \<longleftrightarrow> inflight (run evs (initial c)) \<noteq> [])
   \<and> (processingRef (run evs (initial c)) \<longrightarrow>
        (\<forall>text. handleGenerateScene text (run evs (initial c)) = run evs (initial c)) \<and>
        (\<forall>e. (\<forall>res. e \<noteq> Response res) \<longrightarrow>
              inflight (step e (run evs (initial c))) = inflight (run evs (initial c))))
   \<and> (\<forall>text. inflight (handleGenerateScene text (run evs (initial c)))
                 \<noteq> inflight (run evs (initial c)) \<longrightarrow>
               processingRef (handleGenerateScene text (run evs (initial c))))
   \<and> (\<forall>r res. \<not> processingRef (resume r res (run evs (initial c))))"
proof -
  let ?h = "run evs (initial c)"
  have g: "guard_inv ?h" by (rule guard_inv_run [OF guard_inv_initial])
  then have 1: "length (inflight ?h) \<le> 1" and 2: "processingRef ?h \<longleftrightarrow> inflight ?h \<noteq> []"
    by (simp_all add: guard_inv_def)
  show ?thesis
    using 1 2 handleGenerateScene_busy [of ?h] step_busy [of ?h] resume_clears
      handleGenerateScene_sets [of _ ?h]
    by blast
qed

theorem single_round_witness:
  "length (inflight (run [TranscriptChange story25] (initial 0))) = 1
   \<and> processingRef (run [TranscriptChange story25] (initial 0))
   \<and> handleGenerateScene story24 (run [TranscriptChange story25] (initial 0)) =
        run [TranscriptChange story25] (initial 0)
   \<and> inflight (step ManualClick (run [TranscriptChange story25] (initial 0))) =
        inflight (run [TranscriptChange story25] (initial 0))
   \<and> inflight (step (Elapse 3000) (run [TranscriptChange story25] (initial 0))) =
        inflight (run [TranscriptChange story25] (initial 0))
   \<and> \<not> processingRef (resume \<lparr>r_text = story25, r_lengthProcessed = 49\<rparr> FetchRejected
          (run [TranscriptChange story25] (initial 0)))"
proof -
  have p: "processingRef (run [TranscriptChange story25] (initial 0))"
    and l: "length (inflight (run [TranscriptChange story25] (initial 0))) = 1"
    by (simp_all add: after_story25)
  from single_round_in_flight [of "[TranscriptChange story25]" 0] p l
  show ?thesis by auto
qed

text \<open>
  C5. When the round in flight fails (\<open>fetch\<close> rejects, the response is not ok, its body
  cannot be read, or the result is unsuccessful or has no image), only the guard and the
  round itself go away: \<open>lastProcessedLength\<close>, the scenes, the transcript and the
  timer are as before, and no new round is dispatched. The pending text is still
  eligible: a click on the button then dispatches it.
\<close>

theorem failed_round_changes_nothing:
  assumes "inflight h = [r]" and "failed res"
  shows "step (Response res) h = h\<lparr>inflight := [], processingRef := False, isProcessing := False\<rparr>
       \<and> (3 < length (trim (pending h)) \<longrightarrow>
            inflight (step ManualClick (step (Response res) h)) =
              [\<lparr>r_text = pending h, r_lengthProcessed = length (pending h)\<rparr>])"
proof -
  have 1: "step (Response res) h = h\<lparr>inflight := [], processingRef := False, isProcessing := False\<rparr>"
    using assms by (simp add: step_def resume_failed)
  have "inflight (step ManualClick (step (Response res) h)) =
              [\<lparr>r_text = pending h, r_lengthProcessed = length (pending h)\<rparr>]"
    if l: "3 < length (trim (pending h))"
  proof -
    from l have "trim (pending h) \<noteq> []" by auto
    moreover from this have "currentTranscript h \<noteq> []"
      by (auto simp: pending_def slice_def trim_Nil)
    ultimately show ?thesis using l unfolding 1
      by (simp add: step_def manual_click_def Let_def handleGenerateScene_def pending_def)
  qed
  with 1 show ?thesis by simp
qed

theorem failed_round_witness:
  "inflight demo_busy = [\<lparr>r_text = story25, r_lengthProcessed = 49\<rparr>] \<and> failed NotOk
   \<and> 3 < length (trim (pending demo_busy))
   \<and> lastProcessedLength (step (Response NotOk) demo_busy) = 0
   \<and> scenes (step (Response NotOk) demo_busy) = []
   \<and> currentTranscript (step (Response NotOk) demo_busy) = story25
   \<and> inflight (step (Response NotOk) demo_busy) = []
   \<and> inflight (step ManualClick (step (Response NotOk) demo_busy)) =
        [\<lparr>r_text = story25, r_lengthProcessed = 49\<rparr>]"
proof -
  have a: "inflight demo_busy = [\<lparr>r_text = story25, r_lengthProcessed = 49\<rparr>]"
    and b: "failed NotOk" and c: "3 < length (trim (pending demo_busy))"
    and p: "pending demo_busy = story25"
    by (simp_all add: demo_busy_eq failed_def pending_def slice_def story25_facts)
  note T = failed_round_changes_nothing [OF a b]
  have e: "lastProcessedLength (step (Response NotOk) demo_busy) = 0"
    "scenes (step (Response NotOk) demo_busy) = []"
    "currentTranscript (step (Response NotOk) demo_busy) = story25"
    "inflight (step (Response NotOk) demo_busy) = []"
    by (simp_all add: T [THEN conjunct1]) (simp_all add: demo_busy_eq)
  have q: "inflight (step ManualClick (step (Response NotOk) demo_busy)) =
        [\<lparr>r_text = pending demo_busy, r_lengthProcessed = length (pending demo_busy)\<rparr>]"
    by (rule T [THEN conjunct2, rule_format, OF c])
  show ?thesis using a b c e q unfolding p by (simp add: story25_facts)
qed

text \<open>
  C6. The claim: the text the consumer holds is always \<open>base + session + interim\<close>, joined
  with a single space at each boundary, and the consumer is notified only when that
  text differs from the one it was given last. The code does otherwise on this
  dictation. After the final chunk "Once upon", the interim chunk "a time" is passed on
  as "Once upona time", where the claim, and the handler's own path for a final chunk,
  put a space. When the user then edits the text back to "Once upon", the consumer is
  not notified and keeps "Once upona time". And the same interim chunk, said again
  after the restart, is notified as "Once upona time" a second time in a row.
\<close>

theorem authoritative_text_at_dictation:
  "notified (rrun dictation rinitial) = [ascii ''Once upon'', ascii ''Once upona time'']
   \<and> spec_authoritative (baseTranscript (rrun dictation rinitial))
         (sessionTranscript (rrun dictation rinitial))
         (interimTranscript (rrun dictation rinitial)) = ascii ''Once upon a time''
   \<and> last (notified (rrun dictation rinitial)) \<noteq>
       spec_authoritative (baseTranscript (rrun dictation rinitial))
         (sessionTranscript (rrun dictation rinitial))
         (interimTranscript (rrun dictation rinitial))
   \<and> fullText (rrun (dictation @ [ManualEdit (ascii ''Once upon'')]) rinitial) =
       ascii ''Once upon''
   \<and> spec_authoritative
         (baseTranscript (rrun (dictation @ [ManualEdit (ascii ''Once upon'')]) rinitial))
         (sessionTranscript (rrun (dictation @ [ManualEdit (ascii ''Once upon'')]) rinitial))
         (interimTranscript (rrun (dictation @ [ManualEdit (ascii ''Once upon'')]) rinitial)) =
       ascii ''Once upon''
   \<and> notified (rrun (dictation @ [ManualEdit (ascii ''Once upon'')]) rinitial) =
       [ascii ''Once upon'', ascii ''Once upona time'']
   \<and> notified (rrun dictation_edited rinitial) =
       [ascii ''Once upon'', ascii ''Once upona time'', ascii ''Once upona time'']"
proof -
  have s: "spec_authoritative (ascii ''Once upon'') [] (ascii ''a time'') =
      ascii ''Once upon a time''"
    "spec_authoritative (ascii ''Once upon'') [] [] = ascii ''Once upon''"
    by (simp_all add: spec_authoritative_def spec_join_def endsWith_space_def ascii_def)
  have n: "ascii ''Once upona time'' \<noteq> ascii ''Once upon a time''"
    by (simp add: ascii_def)
  show ?thesis
    unfolding after_dictation after_dictation_edited after_dictation_edit using s n
    by (simp add: fullText_def)
qed

text \<open>
  C7 (as amended). For a recognition result that arrives while \<open>isRecordingRef\<close> is set:
  the interim text becomes the concatenation of the event's non-final transcripts,
  whatever it was; when the concatenation of the final transcripts is not empty, it is
  trimmed and appended to the base, after one space exactly when the base is not empty
  and does not end in a space, and the session text is emptied; when it is empty, base
  and session stay as they are; nothing else changes. The counterexample: a result that
  arrives while the flag is clear does not replace the interim text, and a final chunk
  is appended without its own leading and trailing white space.
\<close>

theorem recognition_result_while_listening:
  assumes "isRecordingRef r"
    and "finalChunk = concat (map res_transcript (filter isFinal results))"
    and "interimChunk = concat (map res_transcript (filter (\<lambda>res. \<not> isFinal res) results))"
  shows "interimTranscript (onresult results r) = interimChunk
       \<and> (finalChunk \<noteq> [] \<longrightarrow>
            baseTranscript (onresult results r) =
              baseTranscript r @
              (if baseTranscript r \<noteq> [] \<and> last (baseTranscript r) \<noteq> 0x0020 then [0x0020] else []) @
              trim finalChunk
            \<and> sessionTranscript (onresult results r) = [])
       \<and> (finalChunk = [] \<longrightarrow>
            baseTranscript (onresult results r) = baseTranscript r
            \<and> sessionTranscript (onresult results r) = sessionTranscript r)
       \<and> onresult results r =
            r\<lparr>baseTranscript := baseTranscript (onresult results r),
              sessionTranscript := sessionTranscript (onresult results r),
              interimTranscript := interimChunk\<rparr>"
  using assms
  by (simp add: onresult_def chunks_eq Let_def spacer_def endsWith_space_def)

theorem recognition_result_witness:
  "isRecordingRef listening
   \<and> baseTranscript (onresult [said True '' a time'', said False ''there''] listening) =
       ascii ''Once upon a time''
   \<and> sessionTranscript (onresult [said True '' a time'', said False ''there''] listening) = []
   \<and> interimTranscript (onresult [said True '' a time'', said False ''there''] listening) =
       ascii ''there''"
proof -
  let ?rs = "[said True '' a time'', said False ''there'']"
  have a: "isRecordingRef listening" by (simp add: listening_eq)
  have f: "ascii '' a time'' = concat (map res_transcript (filter isFinal ?rs))"
    and i: "ascii ''there'' = concat (map res_transcript (filter (\<lambda>res. \<not> isFinal res) ?rs))"
    by (simp_all add: said_def)
  have ne: "ascii '' a time'' \<noteq> []" by (simp add: ascii_def)
  have b: "baseTranscript listening @
      (if baseTranscript listening \<noteq> [] \<and> last (baseTranscript listening) \<noteq> 0x0020
       then [0x0020] else []) @ trim (ascii '' a time'') = ascii ''Once upon a time''"
    unfolding listening_eq by (simp add: trim_def is_space_def ascii_def)
  note T = recognition_result_while_listening [OF a f i]
  have 1: "interimTranscript (onresult ?rs listening) = ascii ''there''"
    by (rule T [THEN conjunct1])
  have 2: "baseTranscript (onresult ?rs listening) = ascii ''Once upon a time''
       \<and> sessionTranscript (onresult ?rs listening) = []"
    using T [THEN conjunct2, THEN conjunct1, rule_format, OF ne] unfolding b .
  show ?thesis using a 1 2 by blast
qed

theorem recognition_result_counterexample:
  "\<not> isRecordingRef (rstep (ToggleClick True) listening)
   \<and> interimTranscript
        (rstep (Result [said False ''hello'']) (rstep (ToggleClick True) listening)) \<noteq>
       ascii ''hello''
   \<and> baseTranscript (rstep (Result [said True ''  a time '']) listening) =
       ascii ''Once upon a time''
   \<and> baseTranscript (rstep (Result [said True ''  a time '']) listening) \<noteq>
       baseTranscript listening @ ascii '' '' @ ascii ''  a time ''"
  unfolding listening_eq
  by (simp add: rec_eval trim_def is_space_def ascii_def)

text \<open>
  C8 (as amended). There are two clearing actions. "Clear History" empties the scenes
  and leaves the cursor and the transcript of the page as they are. The recorder's
  clear button empties base, session, interim and the stored text, stops a running
  recording and notifies the page with the empty text; in every state the page can
  reach, that update leaves it with an empty transcript and the cursor at 0, and keeps
  its scenes and the round in flight, if any. When no round is in flight at the clear,
  the narration that follows is handled from zero: the whole new text is pending; with
  25 words or more it is dispatched whole at once; with fewer the timer is armed for
  3000 ms later, and when it runs it dispatches the whole text exactly when that is
  longer than 10 code units and not blank. The counterexample: after one scene,
  "Clear History" leaves the cursor at 49, and the recorder's clear leaves the scene in
  place.
\<close>

theorem clear_actions_are_separate:
  "clear_history h = h\<lparr>scenes := []\<rparr>
   \<and> rstep ClearClick r =
       (if isRecording r then stopRecording r else r)
         \<lparr>transcript := [], baseTranscript := [], sessionTranscript := [],
          interimTranscript := [], notified := notified r @ [Nil]\<rparr>
   \<and> currentTranscript (step (TranscriptChange []) (run evs (initial c))) = []
   \<and> lastProcessedLength (step (TranscriptChange []) (run evs (initial c))) = 0
   \<and> scenes (step (TranscriptChange []) (run evs (initial c))) = scenes (run evs (initial c))
   \<and> inflight (step (TranscriptChange []) (run evs (initial c))) =
       inflight (run evs (initial c))
   \<and> (\<not> processingRef (run evs (initial c)) \<and> t \<noteq> [] \<longrightarrow>
        step (TranscriptChange t) (step (TranscriptChange []) (run evs (initial c))) =
          (if 25 \<le> wordCount t
           then (step (TranscriptChange []) (run evs (initial c)))
                  \<lparr>currentTranscript := t, pause_timer := None, processingRef := True,
                   isProcessing := True,
                   inflight := inflight (run evs (initial c)) @
                     [\<lparr>r_text = t, r_lengthProcessed = length t\<rparr>]\<rparr>
           else (step (TranscriptChange []) (run evs (initial c)))
                  \<lparr>currentTranscript := t,
                   pause_timer := Some \<lparr>deadline = clock (run evs (initial c)) + 3000,
                                        t_currentTranscript = t, t_lastProcessedLength = 0,
                                        t_newText = t\<rparr>\<rparr>))
   \<and> (\<not> processingRef (run evs (initial c)) \<and> t \<noteq> [] \<and> wordCount t < 25 \<and> 3000 \<le> d \<longrightarrow>
        step (Elapse d)
          (step (TranscriptChange t) (step (TranscriptChange []) (run evs (initial c)))) =
          (if 10 < length t \<and> trim t \<noteq> []
           then (step (TranscriptChange []) (run evs (initial c)))
                  \<lparr>currentTranscript := t, clock := clock (run evs (initial c)) + d,
                   pause_timer := None, processingRef := True, isProcessing := True,
                   inflight := inflight (run evs (initial c)) @
                     [\<lparr>r_text = t, r_lengthProcessed = length t\<rparr>]\<rparr>
           else (step (TranscriptChange []) (run evs (initial c)))
                  \<lparr>currentTranscript := t, clock := clock (run evs (initial c)) + d,
                   pause_timer := None\<rparr>))"
proof -
  define h0 where "h0 = run evs (initial c)"
  define hc where "hc = step (TranscriptChange []) h0"
  have i: "cursor_inv h0" unfolding h0_def by (rule cursor_inv_run [OF cursor_inv_initial])
  note u = clear_update [OF i, folded hc_def]
  have a: "currentTranscript hc = []" "lastProcessedLength hc = 0" "scenes hc = scenes h0"
    "inflight hc = inflight h0" "processingRef hc = processingRef h0" "clock hc = clock h0"
    using u by simp_all
  have w: "step (TranscriptChange t) hc =
          (if 25 \<le> wordCount t
           then hc\<lparr>currentTranscript := t, pause_timer := None, processingRef := True,
                   isProcessing := True,
                   inflight := inflight h0 @ [\<lparr>r_text = t, r_lengthProcessed = length t\<rparr>]\<rparr>
           else hc\<lparr>currentTranscript := t,
                   pause_timer := Some \<lparr>deadline = clock h0 + 3000,
                                        t_currentTranscript = t, t_lastProcessedLength = 0,
                                        t_newText = t\<rparr>\<rparr>)"
    if "\<not> processingRef h0" "t \<noteq> []"
    using narrate_from_zero [of hc t] a that by simp
  have p: "step (Elapse d) (step (TranscriptChange t) hc) =
          (if 10 < length t \<and> trim t \<noteq> []
           then hc\<lparr>currentTranscript := t, clock := clock h0 + d,
                   pause_timer := None, processingRef := True, isProcessing := True,
                   inflight := inflight h0 @ [\<lparr>r_text = t, r_lengthProcessed = length t\<rparr>]\<rparr>
           else hc\<lparr>currentTranscript := t, clock := clock h0 + d, pause_timer := None\<rparr>)"
    if "\<not> processingRef h0" "t \<noteq> []" "wordCount t < 25" "3000 \<le> d"
    using pause_from_zero [of hc t d] a that by simp
  have "clear_history h = h\<lparr>scenes := []\<rparr>" by (simp add: clear_history_def)
  moreover note clear_click [of r]
  ultimately show ?thesis
    using a(1-4) w p unfolding hc_def h0_def by (intro conjI impI) blast+
qed

theorem clear_actions_witness:
  "\<not> processingRef demo_done \<and> story25 \<noteq> [] \<and> narration \<noteq> [] \<and> wordCount narration < 25
   \<and> scenes (clear_history demo_done) = []
   \<and> lastProcessedLength (clear_history demo_done) = 49
   \<and> baseTranscript (rstep ClearClick listening) = []
   \<and> notified (rstep ClearClick listening) = [ascii ''Once upon'', []]
   \<and> lastProcessedLength (step (TranscriptChange []) demo_done) = 0
   \<and> scenes (step (TranscriptChange []) demo_done) = scenes demo_done
   \<and> inflight (step (TranscriptChange story25) (step (TranscriptChange []) demo_done)) =
       [\<lparr>r_text = story25, r_lengthProcessed = 49\<rparr>]
   \<and> inflight (step (Elapse 3000)
        (step (TranscriptChange narration) (step (TranscriptChange []) demo_done))) =
       [\<lparr>r_text = narration, r_lengthProcessed = 16\<rparr>]"
proof -
  have b: "\<not> processingRef demo_done" and n: "inflight demo_done = []"
    "lastProcessedLength demo_done = 49" "notified listening = [ascii ''Once upon'']"
    by (simp_all add: demo_done_eq listening_eq)
  have c: "story25 \<noteq> []" "narration \<noteq> []" "wordCount narration < 25"
    by (simp_all add: story_ne narration_ne narration_facts)
  note T = clear_actions_are_separate
    [of demo_done listening "[TranscriptChange story25, Response (Json ok_data)]" 0 story25 3000,
     folded demo_done_def]
  note U = clear_actions_are_separate
    [of demo_done listening "[TranscriptChange story25, Response (Json ok_data)]" 0 narration 3000,
     folded demo_done_def]
  have 1: "clear_history demo_done = demo_done\<lparr>scenes := []\<rparr>"
    by (rule T [THEN conjunct1])
  have 2: "rstep ClearClick listening =
       (if isRecording listening then stopRecording listening else listening)
         \<lparr>transcript := [], baseTranscript := [], sessionTranscript := [],
          interimTranscript := [], notified := notified listening @ [Nil]\<rparr>"
    by (rule T [THEN conjunct2, THEN conjunct1])
  have 3: "lastProcessedLength (step (TranscriptChange []) demo_done) = 0"
    by (rule T [THEN conjunct2, THEN conjunct2, THEN conjunct2, THEN conjunct1])
  have 4: "scenes (step (TranscriptChange []) demo_done) = scenes demo_done"
    by (rule T [THEN conjunct2, THEN conjunct2, THEN conjunct2, THEN conjunct2, THEN conjunct1])
  have 5: "inflight (step (TranscriptChange story25) (step (TranscriptChange []) demo_done)) =
          [\<lparr>r_text = story25, r_lengthProcessed = 49\<rparr>]"
    using T [THEN conjunct2, THEN conjunct2, THEN conjunct2, THEN conjunct2, THEN conjunct2,
        THEN conjunct2, THEN conjunct1, rule_format, OF conjI [OF b c(1)]] n
    by (simp add: story25_facts)
  have 6: "inflight (step (Elapse 3000)
        (step (TranscriptChange narration) (step (TranscriptChange []) demo_done))) =
       [\<lparr>r_text = narration, r_lengthProcessed = 16\<rparr>]"
    using U [THEN conjunct2, THEN conjunct2, THEN conjunct2, THEN conjunct2, THEN conjunct2,
        THEN conjunct2, THEN conjunct2, rule_format] b c n
    by (simp add: narration_facts)
  have 7: "baseTranscript (rstep ClearClick listening) = []"
    "notified (rstep ClearClick listening) = [ascii ''Once upon'', []]"
    unfolding 2 using n by simp_all
  have 8: "scenes (clear_history demo_done) = []"
    "lastProcessedLength (clear_history demo_done) = 49"
    unfolding 1 using n by simp_all
  show ?thesis using b c 3 4 5 6 7 8 by blast
qed

theorem clear_all_counterexample:
  "scenes (step ClearHistory demo_done) = []
   \<and> lastProcessedLength (step ClearHistory demo_done) = 49
   \<and> currentTranscript (step ClearHistory demo_done) = story25
   \<and> notified (rstep ClearClick listening) = [ascii ''Once upon'', []]
   \<and> lastProcessedLength (step (TranscriptChange []) demo_done) = 0
   \<and> scenes (step (TranscriptChange []) demo_done) =
       [\<lparr>scene_image = ascii ''fox.png'', scene_narrative = Some story25, scene_id = 0\<rparr>]"
proof -
  have "notified (rstep ClearClick listening) = [ascii ''Once upon'', []]"
    unfolding listening_eq by (simp add: rec_eval)
  moreover have "step (TranscriptChange []) demo_done =
      demo_done\<lparr>currentTranscript := [], lastProcessedLength := 0,
        pause_timer := Some \<lparr>deadline = 3000, t_currentTranscript = [],
                             t_lastProcessedLength = 0, t_newText = []\<rparr>\<rparr>"
    unfolding demo_done_eq using story_ne(1)
    by (simp add: step_def effects_cases)
  ultimately show ?thesis
    by (simp add: demo_done_eq step_def clear_history_def)
qed

text \<open>
  C9. In every state the page can reach: an update of the transcript clears the pending
  timer and, unless the word-count trigger fires on that update, arms a new one for
  3000 ms later, so that no timer runs within 3000 ms of an update. A pending timer is
  never older than 3000 ms; before its time nothing but the clock changes; at its time
  it is removed, and it dispatches the pending text exactly when the transcript is more
  than 10 code units longer than \<open>lastProcessedLength\<close>, the pending text is not blank
  and nothing is in flight.
\<close>

theorem pause_trigger_countdown:
  "(\<forall>t. t \<noteq> currentTranscript (run evs (initial c)) \<longrightarrow>
      pause_timer (step (TranscriptChange t) (run evs (initial c))) =
        (if length t \<ge> lastProcessedLength (run evs (initial c)) \<and>
            25 \<le> wordCount (slice t (lastProcessedLength (run evs (initial c)))) \<and>
            \<not> processingRef (run evs (initial c))
         then None
         else Some \<lparr>deadline = clock (run evs (initial c)) + 3000, t_currentTranscript = t,
                t_lastProcessedLength = min (lastProcessedLength (run evs (initial c))) (length t),
                t_newText = slice t (min (lastProcessedLength (run evs (initial c))) (length t))\<rparr>)
      \<and> (\<forall>d<3000. step (Elapse d) (step (TranscriptChange t) (run evs (initial c))) =
            (step (TranscriptChange t) (run evs (initial c)))
              \<lparr>clock := clock (run evs (initial c)) + d\<rparr>))
   \<and> (\<forall>tm d. pause_timer (run evs (initial c)) = Some tm \<longrightarrow>
        clock (run evs (initial c)) < deadline tm \<and>
        deadline tm \<le> clock (run evs (initial c)) + 3000 \<and>
        (clock (run evs (initial c)) + d < deadline tm \<longrightarrow>
           step (Elapse d) (run evs (initial c)) =
             (run evs (initial c))\<lparr>clock := clock (run evs (initial c)) + d\<rparr>) \<and>
        (deadline tm \<le> clock (run evs (initial c)) + d \<longrightarrow>
           step (Elapse d) (run evs (initial c)) =
             (if lastProcessedLength (run evs (initial c)) + 10
                   < length (currentTranscript (run evs (initial c))) \<and>
                 trim (pending (run evs (initial c))) \<noteq> [] \<and>
                 \<not> processingRef (run evs (initial c))
              then (run evs (initial c))
                     \<lparr>clock := clock (run evs (initial c)) + d, pause_timer := None,
                       processingRef := True, isProcessing := True,
                       inflight := inflight (run evs (initial c)) @
                         [\<lparr>r_text = pending (run evs (initial c)),
                           r_lengthProcessed = length (pending (run evs (initial c)))\<rparr>]\<rparr>
              else (run evs (initial c))
                     \<lparr>clock := clock (run evs (initial c)) + d, pause_timer := None\<rparr>)))"
proof -
  let ?h = "run evs (initial c)"
  have i: "timer_inv ?h" by (rule timer_inv_run [OF timer_inv_initial])
  show ?thesis
    using change_timer [of _ ?h] change_then_wait [of _ ?h] elapse_armed [OF i]
    by (intro conjI allI impI) blast+
qed

theorem pause_trigger_witness:
  "pause_timer demo_paused =
     Some \<lparr>deadline = 3000, t_currentTranscript = narration, t_lastProcessedLength = 0,
           t_newText = narration\<rparr>
   \<and> step (Elapse 2999) demo_paused = demo_paused\<lparr>clock := 2999\<rparr>
   \<and> inflight (step (Elapse 3000) demo_paused) = [\<lparr>r_text = narration, r_lengthProcessed = 16\<rparr>]
   \<and> pause_timer (step (Elapse 3000) demo_paused) = None
   \<and> pause_timer (step (TranscriptChange narration_more) demo_resumed) =
       Some \<lparr>deadline = 5000, t_currentTranscript = narration_more, t_lastProcessedLength = 0,
             t_newText = narration_more\<rparr>
   \<and> inflight (step (Elapse 2999) (step (TranscriptChange narration_more) demo_resumed)) = []"
proof -
  let ?tm = "\<lparr>deadline = 3000, t_currentTranscript = narration, t_lastProcessedLength = 0,
           t_newText = narration\<rparr>"
  note T = pause_trigger_countdown [of "[TranscriptChange narration]" 0,
      folded demo_paused_def]
  note U = pause_trigger_countdown [of "[TranscriptChange narration, Elapse 2000]" 0,
      folded demo_resumed_def]
  have tm: "pause_timer demo_paused = Some ?tm" by (simp add: demo_paused_eq)
  have c: "clock demo_paused = 0" "lastProcessedLength demo_paused = 0"
    "currentTranscript demo_paused = narration" "pending demo_paused = narration"
    "\<not> processingRef demo_paused" "inflight demo_paused = []"
    by (simp_all add: demo_paused_eq pending_def slice_def)
  note E = T [THEN conjunct2, rule_format, OF tm]
  have 1: "step (Elapse 2999) demo_paused = demo_paused\<lparr>clock := 2999\<rparr>"
    using E [THEN conjunct2, THEN conjunct2, THEN conjunct1, of 2999] c by simp
  have 2: "step (Elapse 3000) demo_paused =
      demo_paused\<lparr>clock := 3000, pause_timer := None, processingRef := True,
         isProcessing := True,
         inflight := [\<lparr>r_text = narration, r_lengthProcessed = 16\<rparr>]\<rparr>"
    using E [THEN conjunct2, THEN conjunct2, THEN conjunct2, of 3000] c
    by (simp add: narration_facts narration_ne)
  have r: "narration_more \<noteq> currentTranscript demo_resumed" "clock demo_resumed = 2000"
    "lastProcessedLength demo_resumed = 0" "inflight demo_resumed = []"
    by (simp_all add: demo_resumed_eq demo_paused_eq narration_ne)
  note C = U [THEN conjunct1, rule_format, OF r(1)]
  have 3: "pause_timer (step (TranscriptChange narration_more) demo_resumed) =
       Some \<lparr>deadline = 5000, t_currentTranscript = narration_more, t_lastProcessedLength = 0,
             t_newText = narration_more\<rparr>"
    using C [THEN conjunct1] r by (simp add: slice_def narration_facts)
  have "step (Elapse 2999) (step (TranscriptChange narration_more) demo_resumed) =
      (step (TranscriptChange narration_more) demo_resumed)\<lparr>clock := clock demo_resumed + 2999\<rparr>"
    using C [THEN conjunct2] by simp
  moreover have "inflight (step (TranscriptChange narration_more) demo_resumed) = []"
    unfolding demo_resumed_eq demo_paused_eq using narration_ne
    by (simp add: step_def effects_cases pending_def slice_def narration_facts)
  ultimately have 4:
    "inflight (step (Elapse 2999) (step (TranscriptChange narration_more) demo_resumed)) = []"
    by simp
  show ?thesis using tm 1 2 3 4 by simp
qed

text \<open>
  C10. A recognition result that arrives while \<open>isRecordingRef\<close> is clear changes
  nothing: \<open>onresult\<close> returns the state as it is, and base, session and interim are
  unchanged after the event. \<open>stopRecording\<close> clears the flag, so that a result that
  arrives after it is ignored.
\<close>

theorem late_results_ignored:
  assumes "\<not> isRecordingRef r"
  shows "onresult results r = r
       \<and> baseTranscript (rstep (Result results) r) = baseTranscript r
       \<and> sessionTranscript (rstep (Result results) r) = sessionTranscript r
       \<and> interimTranscript (rstep (Result results) r) = interimTranscript r
       \<and> onresult results (stopRecording s) = stopRecording s"
  using assms by (simp add: onresult_def rstep_frame handle_def stopRecording_def)

theorem late_results_witness:
  "\<not> isRecordingRef (rstep (ToggleClick True) listening)
   \<and> baseTranscript (rstep (Result [said True ''too late'', said False ''again''])
        (rstep (ToggleClick True) listening)) = ascii ''Once upon''
   \<and> interimTranscript (rstep (Result [said True ''too late'', said False ''again''])
        (rstep (ToggleClick True) listening)) = []
   \<and> sessionTranscript (rstep (Result [said True ''too late'', said False ''again''])
        (rstep (ToggleClick True) listening)) = []"
proof -
  have s: "rstep (ToggleClick True) listening =
      listening\<lparr>isRecording := False, isRecordingRef := False, recognitionRef := None\<rparr>"
    unfolding listening_eq by (simp add: rec_eval)
  have a: "\<not> isRecordingRef (rstep (ToggleClick True) listening)"
    unfolding s by simp
  note T = late_results_ignored [OF a, of "[said True ''too late'', said False ''again'']"]
  have b: "baseTranscript (rstep (ToggleClick True) listening) = ascii ''Once upon''"
    "sessionTranscript (rstep (ToggleClick True) listening) = []"
    "interimTranscript (rstep (ToggleClick True) listening) = []"
    unfolding s by (simp_all add: listening_eq)
  show ?thesis
    using a T [THEN conjunct2, THEN conjunct1] T [THEN conjunct2, THEN conjunct2, THEN conjunct1]
      T [THEN conjunct2, THEN conjunct2, THEN conjunct2, THEN conjunct1] b
    by simp
qed

end
